theory Spec2Isabelle
  imports Main "HOL-Library.Word"
begin

text \<open>
  The parsers, the dot-transparency codec and the session of an SMTP client, as functions
  of HOL: the command parser and the reply parser with their serializers, the streaming
  reply parse, the encoder and the decoder of the DATA phase, and the end, the abort and
  the checkpoints of a client session. An exception is a value of type \<open>error\<close>; a function
  that changes an object returns the object as it leaves it.
\<close>

section \<open>JavaScript string primitives\<close>

text \<open>
  Strings of the program are modelled as lists of characters whose code units are below
  256. Within that range, the white space of \<^verbatim>\<open>String.prototype.trim\<close> and of the regular
  expression class \<^verbatim>\<open>\s\<close> is TAB, LF, VT, FF, CR, SPACE and NBSP.
\<close>

definition is_space :: "char \<Rightarrow> bool" where
  "is_space c \<longleftrightarrow>
     c = CHR 0x09 \<or> c = CHR 0x0A \<or> c = CHR 0x0B \<or> c = CHR 0x0C \<or> c = CHR 0x0D \<or>
     c = CHR 0x20 \<or> c = CHR 0xA0"

abbreviation non_space :: "char \<Rightarrow> bool" where
  "non_space c \<equiv> \<not> is_space c"

definition CRLF :: string where
  "CRLF = [CHR 0x0D, CHR 0x0A]"

definition trimRight :: "string \<Rightarrow> string" where
  "trimRight s = rev (dropWhile is_space (rev s))"

definition trim :: "string \<Rightarrow> string" where
  "trim s = trimRight (dropWhile is_space s)"

text \<open>\<^verbatim>\<open>s.match(/[\r\n]/)\<close>\<close>

definition has_linebreak :: "string \<Rightarrow> bool" where
  "has_linebreak s \<longleftrightarrow> CHR 0x0D \<in> set s \<or> CHR 0x0A \<in> set s"

text \<open>
  \<^verbatim>\<open>s.split(/\s+/)\<close>: the pieces between maximal runs of white space. The empty string
  gives one empty piece; leading or trailing white space gives an empty first or last piece.
\<close>

function split_ws :: "string \<Rightarrow> string list" where
  "split_ws s =
     (if dropWhile non_space s = [] then [s]
      else takeWhile non_space s # split_ws (dropWhile is_space (dropWhile non_space s)))"
  by pat_completeness auto
termination
proof (relation "measure length")
  fix s :: string
  assume ne: "dropWhile non_space s \<noteq> []"
  then obtain c cs where r: "dropWhile non_space s = c # cs"
    by (cases "dropWhile non_space s") auto
  then have "is_space c"
    using hd_dropWhile [of non_space s] ne by auto
  then have "length (dropWhile is_space (c # cs)) \<le> length cs"
    by (simp add: length_dropWhile_le)
  moreover have "length (c # cs) \<le> length s"
    using length_dropWhile_le [of non_space s] r by simp
  ultimately show "(dropWhile is_space (dropWhile non_space s), s) \<in> measure length"
    using r by simp
qed simp

declare split_ws.simps [simp del]

definition startsWith :: "string \<Rightarrow> string \<Rightarrow> bool" where
  "startsWith s p \<longleftrightarrow> take (length p) s = p"

definition endsWith :: "string \<Rightarrow> string \<Rightarrow> bool" where
  "endsWith s p \<longleftrightarrow> length p \<le> length s \<and> drop (length s - length p) s = p"

text \<open>\<^verbatim>\<open>s.substr(start, len)\<close> for non-negative arguments.\<close>

definition substr :: "string \<Rightarrow> nat \<Rightarrow> nat \<Rightarrow> string" where
  "substr s start len = take len (drop start s)"

text \<open>
  \<^verbatim>\<open>/KW(\S+)/.exec(s)\<close>, returning the captured group: the expression is not anchored, so
  the first position at which the keyword is followed by at least one non-space character
  matches, and the group is the maximal run of non-space characters after the keyword.
\<close>

fun exec_keyword :: "string \<Rightarrow> string \<Rightarrow> string option" where
  "exec_keyword kw [] = None"
| "exec_keyword kw (c # cs) =
     (if startsWith (c # cs) kw \<and> takeWhile non_space (drop (length kw) (c # cs)) \<noteq> []
      then Some (takeWhile non_space (drop (length kw) (c # cs)))
      else exec_keyword kw cs)"

section \<open>Errors\<close>

text \<open>
  The program throws plain \<^verbatim>\<open>Error\<close> objects that differ in their message; each message is
  one constructor here, named after the error kinds of the specification.
  \<open>RangeError\<close> is the error of \<^verbatim>\<open>Buffer.writeUInt8\<close> for an offset outside the buffer.
\<close>

datatype error =
    EmptyInputError
  | OversizeError
  | FramingError
  | MissingArgumentError
  | MissingVerbError
  | InvalidReplyLineError
  | EmptyReplyError
  | PrematureTerminationError
  | UnterminatedReplyError
  | MissingCodeError
  | MissingLinesError
  | TrailingOverheadError
  | RangeError

section \<open>Command parser\<close>

text \<open>
  A parameter object has string-valued or \<^verbatim>\<open>true\<close>-valued properties, listed in the
  order in which the object enumerates its keys (the parser makes objects with one key).
  \<open>PPrim\<close> is a parameter that is not an object (the serializer accepts those).
\<close>

datatype pval = PTrue | PStr string

datatype param = PObj "(string \<times> pval) list" | PPrim string

record command =
  verb :: string
  domain :: "string option"
  returnPath :: "string option"
  forwardPath :: "string option"
  params :: "param list"

record SMTPCmdLineParser =
  maxLineLength :: int
  timeout :: int

definition new_SMTPCmdLineParser :: SMTPCmdLineParser where
  "new_SMTPCmdLineParser = \<lparr> maxLineLength = 512, timeout = 300000 \<rparr>"

text \<open>
  \<^verbatim>\<open>param = {}; param[key] = value\<close>. On a plain object the key \<^verbatim>\<open>__proto__\<close> is the
  inherited accessor, whose setter ignores a value that is neither an object nor null: the
  object stays without own properties.
\<close>

definition set_property :: "string \<Rightarrow> pval \<Rightarrow> param" where
  "set_property k v = (if k = ''__proto__'' then PObj [] else PObj [(k, v)])"

text \<open>
  One pass of the parameter loop: \<^verbatim>\<open>/([^=]*)(?:=(.+))?/.exec(part)\<close> always matches at
  position 0; the second group is defined when the first \<^verbatim>\<open>=\<close> is followed by at least one
  character other than a line terminator.
\<close>

definition parse_param :: "string \<Rightarrow> param" where
  "parse_param part =
     (let k = takeWhile (\<lambda>c. c \<noteq> CHR ''='') part;
          r = dropWhile (\<lambda>c. c \<noteq> CHR ''='') part;
          v = takeWhile (\<lambda>c. c \<noteq> CHR 0x0A \<and> c \<noteq> CHR 0x0D) (drop 1 r)
      in if v = [] then set_property part PTrue else set_property k (PStr v))"

text \<open>
  The path argument of MAIL and RCPT (the source repeats this code for both verbs, with the
  keywords \<^verbatim>\<open>FROM:\<close> and \<^verbatim>\<open>TO:\<close>).
\<close>

definition parse_path :: "string \<Rightarrow> string \<Rightarrow> error + string" where
  "parse_path kw tok =
     (case exec_keyword kw tok of
        None \<Rightarrow> Inl MissingArgumentError
      | Some m \<Rightarrow>
          if startsWith m ''<'' then
            (if \<not> endsWith m ''>'' then Inl MissingArgumentError
             else Inr (substr m 1 (length m - 2)))
          else Inr m)"

definition parseCommandLine :: "SMTPCmdLineParser \<Rightarrow> string \<Rightarrow> error + command" where
  "parseCommandLine p line0 =
     (if line0 = [] then Inl EmptyInputError
      else
        let line = trim line0 in
        if int (length line) > maxLineLength p - 2 then Inl OversizeError
        else if has_linebreak line then Inl FramingError
        else
          (case split_ws line of
             [] \<Rightarrow> Inr \<lparr> verb = [], domain = None, returnPath = None, forwardPath = None,
                        params = [] \<rparr>
           | v # parts \<Rightarrow>
               if v = ''EHLO'' then
                 (case parts of
                    [] \<Rightarrow> Inl MissingArgumentError
                  | d # ps \<Rightarrow>
                      Inr \<lparr> verb = v, domain = Some d, returnPath = None, forwardPath = None,
                            params = map parse_param ps \<rparr>)
               else if v = ''MAIL'' then
                 (case parts of
                    [] \<Rightarrow> Inl MissingArgumentError
                  | a # ps \<Rightarrow>
                      (case parse_path ''FROM:'' a of
                         Inl e \<Rightarrow> Inl e
                       | Inr rp \<Rightarrow>
                           Inr \<lparr> verb = v, domain = None, returnPath = Some rp,
                                 forwardPath = None, params = map parse_param ps \<rparr>))
               else if v = ''RCPT'' then
                 (case parts of
                    [] \<Rightarrow> Inl MissingArgumentError
                  | a # ps \<Rightarrow>
                      (case parse_path ''TO:'' a of
                         Inl e \<Rightarrow> Inl e
                       | Inr fp \<Rightarrow>
                           if fp = [] then Inl MissingArgumentError
                           else
                             Inr \<lparr> verb = v, domain = None, returnPath = None,
                                   forwardPath = Some fp, params = map parse_param ps \<rparr>))
               else
                 Inr \<lparr> verb = v, domain = None, returnPath = None, forwardPath = None,
                       params = map parse_param parts \<rparr>))"

text \<open>JavaScript truthiness of an optional string property: absent and empty are falsy.\<close>

definition falsy :: "string option \<Rightarrow> bool" where
  "falsy x \<longleftrightarrow> x = None \<or> x = Some []"

definition render_property :: "string \<Rightarrow> string \<times> pval \<Rightarrow> string" where
  "render_property memo kv =
     (case kv of
        (k, PTrue) \<Rightarrow> memo @ '' '' @ k
      | (k, PStr s) \<Rightarrow> if s = [] then memo @ '' '' @ k else memo @ '' '' @ k @ ''='' @ s)"

definition render_param :: "param \<Rightarrow> string" where
  "render_param q =
     (case q of
        PPrim s \<Rightarrow> '' '' @ s
      | PObj kvs \<Rightarrow> foldl render_property [] kvs)"

text \<open>The \<^verbatim>\<open>switch\<close> of \<^verbatim>\<open>serializeCommand\<close>: the verb with its verb-specific argument.\<close>

definition verb_part :: "command \<Rightarrow> error + string" where
  "verb_part c =
     (if verb c = ''EHLO'' then
        (case domain c of
           None \<Rightarrow> Inl MissingArgumentError
         | Some d \<Rightarrow> if d = [] then Inl MissingArgumentError else Inr (verb c @ '' '' @ d))
      else if verb c = ''MAIL'' then
        Inr (verb c @ '' FROM:<'' @ (case returnPath c of None \<Rightarrow> [] | Some rp \<Rightarrow> rp) @ ''>'')
      else if verb c = ''RCPT'' then
        (case forwardPath c of
           None \<Rightarrow> Inl MissingArgumentError
         | Some fp \<Rightarrow> if fp = [] then Inl MissingArgumentError else Inr (verb c @ '' TO:<'' @ fp @ ''>''))
      else Inr (verb c))"

definition serializeCommand :: "SMTPCmdLineParser \<Rightarrow> command option \<Rightarrow> error + string" where
  "serializeCommand p co =
     (case co of
        None \<Rightarrow> Inr (''NOOP'' @ CRLF)
      | Some c \<Rightarrow>
          if verb c = [] then Inl MissingVerbError
          else
            (case verb_part c of
               Inl e \<Rightarrow> Inl e
             | Inr commandLine \<Rightarrow>
                 let out = trim (commandLine @ concat (map render_param (params c))) @ CRLF in
                 if int (length out) > maxLineLength p then Inl OversizeError else Inr out))"

section \<open>Reply parser\<close>

text \<open>
  \<^verbatim>\<open>SMTPReplyParser\<close> has the same two fields as the command parser, \<^verbatim>\<open>timeout\<close> and
  \<^verbatim>\<open>maxLineLength\<close>, with the same defaults.
\<close>

type_synonym SMTPReplyParser = SMTPCmdLineParser

definition new_SMTPReplyParser :: SMTPReplyParser where
  "new_SMTPReplyParser = \<lparr> maxLineLength = 512, timeout = 300000 \<rparr>"

record ReplyLine =
  line_code :: int
  isLast :: bool
  line_message :: string

text \<open>
  A reply object as the serializer receives it: each property may be absent. The empty
  object \<^verbatim>\<open>{}\<close> is \<open>empty_reply\<close>.
\<close>

record Reply =
  code :: "int option"
  message :: "string option"
  lines :: "string list option"

definition empty_reply :: Reply where
  "empty_reply = \<lparr> code = None, message = None, lines = None \<rparr>"

definition is_digit :: "char \<Rightarrow> bool" where
  "is_digit c \<longleftrightarrow> (48::nat) \<le> of_char c \<and> of_char c \<le> (57::nat)"

definition digit_value :: "char \<Rightarrow> int" where
  "digit_value c = int (of_char c) - 48"

text \<open>
  \<^verbatim>\<open>/^([2345][0-9]{2})(?:([\- ])(.*))?/.exec(input)\<close> on an input without line
  terminators: the result is the code, the separator when there is one, and the rest of the
  line after the separator. The expression is anchored at the start only.
\<close>

fun exec_reply :: "string \<Rightarrow> (string \<times> char option \<times> string option) option" where
  "exec_reply (a # b # c # rest) =
     (if a \<in> set ''2345'' \<and> is_digit b \<and> is_digit c then
        (case rest of
           [] \<Rightarrow> Some ([a, b, c], None, None)
         | sep # msg \<Rightarrow>
             if sep = CHR ''-'' \<or> sep = CHR '' '' then Some ([a, b, c], Some sep, Some msg)
             else Some ([a, b, c], None, None))
      else None)"
| "exec_reply _ = None"

definition parseInt3 :: "string \<Rightarrow> int" where
  "parseInt3 ds = foldl (\<lambda>n d. 10 * n + digit_value d) 0 ds"

definition parseReplyLine :: "SMTPReplyParser \<Rightarrow> string \<Rightarrow> error + ReplyLine" where
  "parseReplyLine p input0 =
     (if input0 = [] then Inl EmptyInputError
      else if int (length input0) > maxLineLength p then Inl OversizeError
      else
        let input = trimRight input0 in
        if has_linebreak input then Inl FramingError
        else
          (case exec_reply input of
             None \<Rightarrow> Inl InvalidReplyLineError
           | Some (digits, sep, msg) \<Rightarrow>
               Inr \<lparr> line_code = parseInt3 digits,
                     isLast = (sep \<noteq> Some (CHR ''-'')),
                     line_message = (case msg of None \<Rightarrow> [] | Some m \<Rightarrow> m) \<rparr>))"

text \<open>
  The reducer of \<^verbatim>\<open>parseReply\<close>, applied to the line at index \<open>idx\<close> of a list of \<open>n\<close>
  lines. \<^verbatim>\<open>memo.lines\<close> is created at index 0, so it is present whenever a line is pushed.
\<close>

fun reduce_reply :: "Reply \<Rightarrow> nat \<Rightarrow> nat \<Rightarrow> ReplyLine list \<Rightarrow> error + Reply" where
  "reduce_reply memo idx n [] = Inr memo"
| "reduce_reply memo idx n (l # ls) =
     (let memo1 = memo \<lparr> code := Some (line_code l) \<rparr>;
          memo2 = (if idx = 0 then memo1 \<lparr> message := Some (line_message l), lines := Some [] \<rparr>
                   else memo1);
          memo3 = memo2 \<lparr> lines := Some ((case lines memo2 of None \<Rightarrow> [] | Some xs \<Rightarrow> xs)
                                         @ [line_message l]) \<rparr>
      in if isLast l \<and> int idx \<noteq> int n - 1 then Inl PrematureTerminationError
         else if \<not> isLast l \<and> int idx = int n - 1 then Inl UnterminatedReplyError
         else reduce_reply memo3 (Suc idx) n ls)"

text \<open>\<^verbatim>\<open>parseReply\<close> for an array of reply lines.\<close>

definition parseReply :: "ReplyLine list \<Rightarrow> error + Reply" where
  "parseReply replyLines =
     (if replyLines = [] then Inl EmptyReplyError
      else reduce_reply empty_reply 0 (length replyLines) replyLines)"

text \<open>The decimal form of a number, as string concatenation gives it for an integer.\<close>

definition digit_char :: "nat \<Rightarrow> char" where
  "digit_char d = char_of (48 + d)"

fun decimal :: "nat \<Rightarrow> string" where
  "decimal n = (if n < 10 then [digit_char n] else decimal (n div 10) @ [digit_char (n mod 10)])"

declare decimal.simps [simp del]

definition number_toString :: "int \<Rightarrow> string" where
  "number_toString i = (if i < 0 then ''-'' @ decimal (nat (- i)) else decimal (nat i))"

text \<open>\<^verbatim>\<open>xs[0] = v\<close> on an array: an empty array grows to length one.\<close>

fun assign_first :: "'a list \<Rightarrow> 'a \<Rightarrow> 'a list" where
  "assign_first [] v = [v]"
| "assign_first (x # xs) v = v # xs"

text \<open>
  The reducer of \<^verbatim>\<open>serializeReply\<close>: \<open>c\<close> is the code, \<open>n\<close> the number of lines.
\<close>

fun render_lines ::
  "SMTPReplyParser \<Rightarrow> int \<Rightarrow> nat \<Rightarrow> string \<Rightarrow> nat \<Rightarrow> string list \<Rightarrow> error + string" where
  "render_lines p c n memo idx [] = Inr memo"
| "render_lines p c n memo idx (l # ls) =
     (let currentLine = number_toString c @ (if int idx = int n - 1 then '' '' else ''-'')
                        @ trim l @ CRLF
      in if int (length currentLine) > maxLineLength p then Inl OversizeError
         else render_lines p c n (memo @ currentLine) (Suc idx) ls)"

text \<open>
  \<^verbatim>\<open>serializeReply\<close> returns its result together with the reply object as the call leaves
  it, since the function assigns to the object it is given. \<open>None\<close> is a null or
  undefined argument.
\<close>

definition serializeReply ::
  "SMTPReplyParser \<Rightarrow> Reply option \<Rightarrow> (error + string) \<times> Reply option" where
  "serializeReply p ro =
     (case ro of
        None \<Rightarrow> (Inl EmptyInputError, None)
      | Some reply \<Rightarrow>
          (case code reply of
             None \<Rightarrow> (Inl MissingCodeError, Some reply)
           | Some c \<Rightarrow>
               if c = 0 then (Inl MissingCodeError, Some reply)
               else if (lines reply = None \<or> lines reply = Some []) \<and> falsy (message reply)
               then (Inl MissingLinesError, Some reply)
               else
                 let reply1 =
                       (case message reply of
                          None \<Rightarrow> reply
                        | Some m \<Rightarrow>
                            if m = [] then reply
                            else reply \<lparr> lines :=
                                   Some (assign_first
                                           (case lines reply of None \<Rightarrow> [] | Some xs \<Rightarrow> xs) m) \<rparr>);
                     ls = (case lines reply1 of None \<Rightarrow> [] | Some xs \<Rightarrow> xs)
                 in (render_lines p c (length ls) [] 0 ls, Some reply1)))"

subsection \<open>Streaming parse\<close>

text \<open>
  The state of one \<^verbatim>\<open>parse\<close> call between chunks: the bytes written to \<^verbatim>\<open>currentLine\<close>
  so far (its first \<^verbatim>\<open>lineLength\<close> bytes; the rest of the buffer is never read) and the
  reply lines collected. The bytes of a chunk are taken as characters. A chunk leaves the
  call pending, settles the promise through \<^verbatim>\<open>cleanup\<close> (resolved with a reply or
  rejected with an error), or makes the listener throw, which leaves the promise unsettled
  and the listeners attached.
\<close>

record parse_state =
  currentLine :: string
  replyLines :: "ReplyLine list"

datatype outcome =
    Pending parse_state
  | Settled "error + Reply"
  | Thrown error parse_state

definition parse_init :: parse_state where
  "parse_init = \<lparr> currentLine = [], replyLines = [] \<rparr>"

fun onData_loop :: "SMTPReplyParser \<Rightarrow> parse_state \<Rightarrow> string \<Rightarrow> outcome" where
  "onData_loop p st [] = Pending st"
| "onData_loop p st (currChar # rest) =
     (if int (length (currentLine st)) \<ge> maxLineLength p then Settled (Inl OversizeError)
      else
        let st1 = st \<lparr> currentLine := currentLine st @ [currChar] \<rparr> in
        if currChar = CHR 0x0A then
          (case parseReplyLine p (currentLine st1) of
             Inl e \<Rightarrow> Settled (Inl e)
           | Inr replyLine \<Rightarrow>
               let st2 = st1 \<lparr> replyLines := replyLines st1 @ [replyLine] \<rparr> in
               if isLast replyLine then
                 (if rest \<noteq> [] then Thrown TrailingOverheadError st2
                  else Settled (parseReply (replyLines st2)))
               else onData_loop p (st2 \<lparr> currentLine := [] \<rparr>) rest)
        else onData_loop p st1 rest)"

definition onData :: "SMTPReplyParser \<Rightarrow> parse_state \<Rightarrow> string \<Rightarrow> outcome" where
  "onData p st chunk = (if chunk = [] then Pending st else onData_loop p st chunk)"

section \<open>Dot-transparency codec\<close>

type_synonym byte = "8 word"

definition CR :: byte where "CR = 0x0d"
definition LF :: byte where "LF = 0x0a"
definition DOT :: byte where "DOT = 0x2e"

text \<open>\<^verbatim>\<open>buf.slice(from, to)\<close> for \<open>0 \<le> from\<close>.\<close>

definition slice :: "byte list \<Rightarrow> nat \<Rightarrow> int \<Rightarrow> byte list" where
  "slice buf from to = drop from (take (nat to) buf)"

text \<open>
  Both transforms hand their output to the stream with \<^verbatim>\<open>push\<close>. What they hand over is the
  Buffer they work in (\<^verbatim>\<open>this.buffer\<close>) or a \<^verbatim>\<open>slice\<close> of it, and a slice shares the memory
  of its Buffer: the bytes of such a chunk are those the memory holds when the chunk is
  read, and the transform goes on writing into that memory. A chunk is therefore a
  reference: \<open>View from to\<close> is the part of the transform's buffer from \<open>from\<close> up to \<open>to\<close>, and
  \<open>Fresh\<close> is a Buffer with memory of its own (\<^verbatim>\<open>Buffer.from([...])\<close>).
\<close>

datatype chunk = View nat int | Fresh "byte list"

fun read_chunk :: "byte list \<Rightarrow> chunk \<Rightarrow> byte list" where
  "read_chunk mem (View from to) = slice mem from to"
| "read_chunk mem (Fresh bs) = bs"

text \<open>
  The receiving side of a stream. The consumer \<open>AtPush\<close> reads every chunk during the call
  of \<^verbatim>\<open>push\<close> that hands it over: a \<^verbatim>\<open>data\<close> listener of a flowing stream that copies or
  converts the chunk at once, as the tests do with \<^verbatim>\<open>chunk.toString\<close>. The consumer \<open>Later\<close>
  keeps the chunks and reads them when the run is over: \<^verbatim>\<open>SMTPClient.data\<close> passes the chunk
  to a socket write that takes place on the next tick, and a stream that is not flowing
  keeps the chunks in its queue. \<open>held\<close> are the chunks handed over and not read yet, \<open>seen\<close>
  the bytes the consumer has read.
\<close>

datatype reader = AtPush | Later

record consumer =
  reader :: reader
  held :: "chunk list"
  seen :: "byte list list"

definition new_consumer :: "reader \<Rightarrow> consumer" where
  "new_consumer r = \<lparr> reader = r, held = [], seen = [] \<rparr>"

definition push :: "byte list \<Rightarrow> consumer \<Rightarrow> chunk \<Rightarrow> consumer" where
  "push mem out ch =
     (if reader out = AtPush then out \<lparr> seen := seen out @ [read_chunk mem ch] \<rparr>
      else out \<lparr> held := held out @ [ch] \<rparr>)"

definition read_held :: "byte list \<Rightarrow> consumer \<Rightarrow> consumer" where
  "read_held mem out = out \<lparr> seen := seen out @ map (read_chunk mem) (held out), held := [] \<rparr>"

subsection \<open>Encoder\<close>

text \<open>
  The encoder with the consumer of its output. A new encoder is given the kind of consumer
  that is going to read from it.
\<close>

record DotEncoder =
  enc_buffer :: "byte list"
  enc_bufferSize :: nat
  lastChar :: byte
  enc_consumer :: consumer

definition new_DotEncoder :: "reader \<Rightarrow> DotEncoder" where
  "new_DotEncoder r =
     \<lparr> enc_buffer = replicate 1024 0x00, enc_bufferSize = 0, lastChar = 0x00,
       enc_consumer = new_consumer r \<rparr>"

text \<open>\<^verbatim>\<open>this.push(chunk)\<close> in the encoder.\<close>

definition enc_push :: "DotEncoder \<Rightarrow> chunk \<Rightarrow> DotEncoder" where
  "enc_push s ch = s \<lparr> enc_consumer := push (enc_buffer s) (enc_consumer s) ch \<rparr>"

text \<open>
  When the buffer is full the encoder pushes the buffer itself, not a copy, and goes on
  writing into it from offset 0.
\<close>

definition write2Buffer :: "DotEncoder \<Rightarrow> byte \<Rightarrow> DotEncoder" where
  "write2Buffer s c =
     (let s1 = s \<lparr> enc_buffer := (enc_buffer s)[enc_bufferSize s := c],
                   enc_bufferSize := enc_bufferSize s + 1,
                   lastChar := c \<rparr>
      in if enc_bufferSize s1 = length (enc_buffer s1)
         then (enc_push s1 (View 0 (int (length (enc_buffer s1))))) \<lparr> enc_bufferSize := 0 \<rparr>
         else s1)"

text \<open>
  The loop of \<^verbatim>\<open>DotEncoder._transform\<close>. After a bare CR the loop writes an LF and takes
  the same input byte again (\<^verbatim>\<open>continue\<close> without advancing), now with LF as last
  character.
\<close>

function enc_loop :: "DotEncoder \<Rightarrow> byte list \<Rightarrow> DotEncoder" where
  "enc_loop s [] = s"
| "enc_loop s (currentChar # chunk) =
     (let s1 = (if (lastChar s = 0x00 \<or> lastChar s = LF) \<and> currentChar = DOT
                then write2Buffer s DOT else s)
      in if currentChar \<noteq> LF \<and> lastChar s1 = CR
         then enc_loop (write2Buffer s1 LF) (currentChar # chunk)
         else
           let s2 = (if currentChar = LF \<and> lastChar s1 \<noteq> CR then write2Buffer s1 CR else s1)
           in enc_loop (write2Buffer s2 currentChar) chunk)"
  by pat_completeness auto
termination
proof (relation "measure (\<lambda>(s, chunk). 2 * length chunk + (if lastChar s = CR then 1 else 0))")
  show "wf (measure (\<lambda>(s, chunk). 2 * length chunk + (if lastChar s = CR then 1 else 0)))"
    by simp
next
  fix s :: DotEncoder and currentChar :: byte and chunk :: "byte list" and x :: DotEncoder
  assume x: "x = (if (lastChar s = 0x00 \<or> lastChar s = LF) \<and> currentChar = DOT
                  then write2Buffer s DOT else s)"
    and c: "currentChar \<noteq> LF \<and> lastChar x = CR"
  have w: "lastChar (write2Buffer t b) = b" for t b
    by (simp add: write2Buffer_def enc_push_def Let_def)
  have "lastChar (write2Buffer x LF) \<noteq> CR"
    by (simp add: w LF_def CR_def)
  moreover have "lastChar s = CR"
    using x c by (auto simp: w DOT_def CR_def split: if_splits)
  ultimately show "((write2Buffer x LF, currentChar # chunk), (s, currentChar # chunk))
      \<in> measure (\<lambda>(s, chunk). 2 * length chunk + (if lastChar s = CR then 1 else 0))"
    by simp
next
  fix s :: DotEncoder and currentChar :: byte and chunk :: "byte list"
    and x :: DotEncoder and xa :: DotEncoder
  show "((write2Buffer xa currentChar, chunk), (s, currentChar # chunk))
      \<in> measure (\<lambda>(s, chunk). 2 * length chunk + (if lastChar s = CR then 1 else 0))"
    by simp
qed

declare enc_loop.simps [simp del]

definition DotEncoder_transform :: "DotEncoder \<Rightarrow> byte list \<Rightarrow> DotEncoder" where
  "DotEncoder_transform s chunk = enc_loop s chunk"

text \<open>
  \<^verbatim>\<open>_flush\<close> pushes the part of the buffer in use as a slice, which shares the buffer's
  memory, and then Buffers of their own.
\<close>

definition DotEncoder_flush :: "DotEncoder \<Rightarrow> DotEncoder" where
  "DotEncoder_flush s =
     (let s1 = enc_push s (View 0 (int (enc_bufferSize s)));
          s2 = (if lastChar s1 = CR
                then (enc_push s1 (Fresh [LF])) \<lparr> lastChar := LF \<rparr>
                else if lastChar s1 \<noteq> LF
                then (enc_push s1 (Fresh [CR, LF])) \<lparr> lastChar := LF \<rparr>
                else s1)
      in enc_push s2 (Fresh [DOT, CR, LF]))"

text \<open>
  A whole run of the encoder for a consumer of the given kind: a new instance, the chunks
  written in order, then the end of the input. The result is the byte sequence the
  consumer has read, the chunks it kept being read once the run is over.
\<close>

definition encode :: "reader \<Rightarrow> byte list list \<Rightarrow> byte list" where
  "encode r chunks =
     (let s = DotEncoder_flush (foldl DotEncoder_transform (new_DotEncoder r) chunks)
      in concat (seen (read_held (enc_buffer s) (enc_consumer s))))"

subsection \<open>Decoder\<close>

text \<open>
  \<open>dec_bufferSize\<close> is an integer: the decoder sets it to \<open>-1\<close> at the end-of-data line.
  \<open>dec_ended\<close> records \<^verbatim>\<open>push(null)\<close>. As for the encoder, a new decoder is given the kind
  of consumer that is going to read from it.
\<close>

record DotDecoder =
  dec_maxLineLength :: int
  dec_buffer :: "byte list"
  dec_bufferSize :: int
  dec_consumer :: consumer
  dec_ended :: bool

definition new_DotDecoder :: "reader \<Rightarrow> DotDecoder" where
  "new_DotDecoder r =
     \<lparr> dec_maxLineLength = 1000, dec_buffer = replicate 1000 0x0, dec_bufferSize = 0,
       dec_consumer = new_consumer r, dec_ended = False \<rparr>"

text \<open>\<^verbatim>\<open>this.push(chunk)\<close> in the decoder.\<close>

definition dec_push :: "DotDecoder \<Rightarrow> chunk \<Rightarrow> DotDecoder" where
  "dec_push s ch = s \<lparr> dec_consumer := push (dec_buffer s) (dec_consumer s) ch \<rparr>"

text \<open>
  The loop of \<^verbatim>\<open>DotDecoder._transform\<close>, with the local variable \<^verbatim>\<open>lastChar\<close> as an
  argument. \<^verbatim>\<open>writeUInt8\<close> throws for an offset outside the buffer. Every line is pushed as
  a slice of the one line buffer, which the next line overwrites from offset 0. At the
  end-of-data line the function returns without calling its callback.
\<close>

fun dec_loop :: "DotDecoder \<Rightarrow> byte \<Rightarrow> byte list \<Rightarrow> error + DotDecoder" where
  "dec_loop s lastc [] = Inr s"
| "dec_loop s lastc (currChar # chunk) =
     (if dec_bufferSize s > dec_maxLineLength s then Inl OversizeError
      else if dec_bufferSize s < 0 \<or> dec_bufferSize s \<ge> int (length (dec_buffer s))
      then Inl RangeError
      else
        let s1 = s \<lparr> dec_buffer := (dec_buffer s)[nat (dec_bufferSize s) := currChar],
                      dec_bufferSize := dec_bufferSize s + 1 \<rparr>
        in if lastc = CR \<and> currChar = LF then
             (if dec_bufferSize s1 > 0 \<and> dec_buffer s1 ! 0 = DOT then
                (if dec_bufferSize s1 = 3
                 then Inr (s1 \<lparr> dec_bufferSize := -1, dec_ended := True \<rparr>)
                 else dec_loop
                        ((dec_push s1 (View 1 (dec_bufferSize s1))) \<lparr> dec_bufferSize := 0 \<rparr>)
                        currChar chunk)
              else dec_loop
                     ((dec_push s1 (View 0 (dec_bufferSize s1))) \<lparr> dec_bufferSize := 0 \<rparr>)
                     currChar chunk)
           else dec_loop s1 currChar chunk)"

definition DotDecoder_transform :: "DotDecoder \<Rightarrow> byte list \<Rightarrow> error + DotDecoder" where
  "DotDecoder_transform s chunk =
     dec_loop s (if dec_buffer s \<noteq> [] then dec_buffer s ! (length (dec_buffer s) - 1) else 0x00) chunk"

text \<open>
  The chunks written to a decoder, in order. A chunk is transformed once the callback of
  the previous one has been called: after the end-of-data line no later chunk reaches
  \<^verbatim>\<open>_transform\<close>. An exception ends the run.
\<close>

fun decode_chunks :: "DotDecoder \<Rightarrow> byte list list \<Rightarrow> error + DotDecoder" where
  "decode_chunks s [] = Inr s"
| "decode_chunks s (chunk # chunks) =
     (if dec_ended s then Inr s
      else (case DotDecoder_transform s chunk of
              Inl e \<Rightarrow> Inl e
            | Inr s' \<Rightarrow> decode_chunks s' chunks))"

text \<open>
  A whole run of the decoder for a consumer of the given kind. The result is the byte
  sequence the consumer has read, the chunks it kept being read once the run is over, and
  whether the stream has ended.
\<close>

definition decode :: "reader \<Rightarrow> byte list list \<Rightarrow> error + (byte list \<times> bool)" where
  "decode r chunks =
     (case decode_chunks (new_DotDecoder r) chunks of
        Inl e \<Rightarrow> Inl e
      | Inr s \<Rightarrow> Inr (concat (seen (read_held (dec_buffer s) (dec_consumer s))), dec_ended s))"

section \<open>Client session\<close>

text \<open>
  What a session does to the outside is kept as a log, in order: an event delivered
  through \<^verbatim>\<open>EventEmitter.prototype.emit\<close> (\<open>Emit_end\<close>, \<open>Emit_error\<close>), a call of
  \<^verbatim>\<open>client.close()\<close>, the call of a checkpoint listener (named by its position in the order
  of registration), and the call of the continuation \<^verbatim>\<open>onReady\<close> of a checkpoint.
\<close>

datatype cause = Veto string | VetoExpired | Reason string

datatype action = Emit_end | Emit_error "cause option" | Close | Invoke nat | Proceed

record session =
  ended :: bool
  connected :: bool
  state_error :: "cause option"
  log :: "action list"

text \<open>
  \<^verbatim>\<open>end\<close> and \<^verbatim>\<open>abort\<close> name a variable \<^verbatim>\<open>self\<close> that neither function nor the module
  declares, so it is looked up in the global scope when the statement runs. \<open>has_self\<close> says
  whether the global scope binds \<^verbatim>\<open>self\<close> to an object with a \<^verbatim>\<open>state\<close> object; Node.js has
  no such global.
\<close>

record globals =
  has_self :: bool

definition node_globals :: globals where
  "node_globals = \<lparr> has_self = False \<rparr>"

text \<open>
  The \<^verbatim>\<open>try\<close> block of \<^verbatim>\<open>end\<close> and \<^verbatim>\<open>abort\<close>: the assignment to
  \<^verbatim>\<open>self.state.connected\<close> comes first; where it throws, the \<^verbatim>\<open>catch\<close> clause ignores the
  exception and \<^verbatim>\<open>this.client.close()\<close> is not reached. Where it does not throw it has
  written to the object that \<^verbatim>\<open>self\<close> names, not to this session.
\<close>

definition try_close :: "globals \<Rightarrow> session \<Rightarrow> session" where
  "try_close g s = (if has_self g then s \<lparr> log := log s @ [Close] \<rparr> else s)"

definition session_end :: "globals \<Rightarrow> session \<Rightarrow> session" where
  "session_end g s =
     (if ended s then s
      else
        let s1 = s \<lparr> ended := True \<rparr>;
            s2 = (if connected s1 then try_close g s1 else s1)
        in s2 \<lparr> log := log s2 @ [Emit_end] \<rparr>)"

definition session_abort :: "globals \<Rightarrow> cause option \<Rightarrow> session \<Rightarrow> session" where
  "session_abort g err s =
     (if ended s then s
      else
        let s1 = s \<lparr> ended := True, state_error := err \<rparr>;
            s2 = (if connected s1 then try_close g s1 else s1)
        in s2 \<lparr> log := log s2 @ [Emit_error err] \<rparr>)"

subsection \<open>Checkpoints\<close>

text \<open>
  The variables that the closures of one checkpoint \<^verbatim>\<open>emit\<close> share: the listeners not yet
  called, whether the variable \<^verbatim>\<open>timer\<close> holds a handle, and whether the timeout is still
  scheduled (\<^verbatim>\<open>clearTimeout\<close> unschedules it without changing the variable).
\<close>

record checkpoint =
  listeners :: "nat list"
  timer :: bool
  armed :: bool

text \<open>
  \<^verbatim>\<open>emit\<close> for the event names \<^verbatim>\<open>command\<close>, \<^verbatim>\<open>reply\<close> and \<^verbatim>\<open>connect\<close>, given the
  listeners registered for the event in order of registration.
\<close>

definition emit_checkpoint :: "nat list \<Rightarrow> session \<Rightarrow> checkpoint \<times> session" where
  "emit_checkpoint ls s =
     (case ls of
        [] \<Rightarrow> (\<lparr> listeners = [], timer = False, armed = False \<rparr>, s \<lparr> log := log s @ [Proceed] \<rparr>)
      | nextListener # rest \<Rightarrow>
          (\<lparr> listeners = rest, timer = True, armed = True \<rparr>,
           s \<lparr> log := log s @ [Invoke nextListener] \<rparr>))"

text \<open>The closure \<^verbatim>\<open>callback\<close>, called with an error (\<open>Some\<close>) or without one.\<close>

definition callback :: "globals \<Rightarrow> string option \<Rightarrow> checkpoint \<times> session \<Rightarrow> checkpoint \<times> session" where
  "callback g err ks =
     (let k = fst ks; s = snd ks in
      if \<not> timer k then (k, s)
      else if ended s then (k \<lparr> timer := False, armed := False \<rparr>, s)
      else
        (case err of
           Some e \<Rightarrow> (k \<lparr> armed := False \<rparr>, session_abort g (Some (Veto e)) s)
         | None \<Rightarrow>
             (case listeners k of
                [] \<Rightarrow> (k \<lparr> timer := False, armed := False \<rparr>, s \<lparr> log := log s @ [Proceed] \<rparr>)
              | nextListener # rest \<Rightarrow>
                  (k \<lparr> listeners := rest \<rparr>, s \<lparr> log := log s @ [Invoke nextListener] \<rparr>))))"

text \<open>The function given to \<^verbatim>\<open>setTimeout\<close>; it runs only while the timeout is scheduled.\<close>

definition timer_fires :: "globals \<Rightarrow> checkpoint \<times> session \<Rightarrow> checkpoint \<times> session" where
  "timer_fires g ks =
     (let k = fst ks; s = snd ks in
      if armed k then (k \<lparr> timer := False, armed := False \<rparr>, session_abort g (Some VetoExpired) s)
      else (k, s))"

text \<open>
  What can happen while a checkpoint is open: somebody calls the callback, the timeout
  elapses, or somebody calls \<^verbatim>\<open>end()\<close> on the session.
\<close>

datatype event = Callback "string option" | TimerFires | EndCalled

fun step :: "globals \<Rightarrow> checkpoint \<times> session \<Rightarrow> event \<Rightarrow> checkpoint \<times> session" where
  "step g ks (Callback err) = callback g err ks"
| "step g ks TimerFires = timer_fires g ks"
| "step g ks EndCalled = (fst ks, session_end g (snd ks))"

definition run_checkpoint :: "globals \<Rightarrow> nat list \<Rightarrow> session \<Rightarrow> event list \<Rightarrow> checkpoint \<times> session" where
  "run_checkpoint g ls s evs = foldl (step g) (emit_checkpoint ls s) evs"

section \<open>Notions of the specification\<close>

text \<open>
  The definitions of this section are not code of the program: they say what the
  specification means by the words its properties use.
\<close>

text \<open>
  A word in another letter case: the same word once its ASCII letters are in upper case,
  and not the word itself.
\<close>

definition toUpperCase :: "string \<Rightarrow> string" where
  "toUpperCase s =
     map (\<lambda>c. if (97::nat) \<le> of_char c \<and> of_char c \<le> (122::nat)
               then char_of (of_char c - (32::nat)) else c) s"

definition case_variant :: "string \<Rightarrow> string \<Rightarrow> bool" where
  "case_variant v w \<longleftrightarrow> toUpperCase v = w \<and> v \<noteq> w"

text \<open>
  The canonical form of a command line: its tokens joined by single spaces, the path of
  MAIL and RCPT between angle brackets, CRLF at the end.
\<close>

definition unbracket :: "string \<Rightarrow> string" where
  "unbracket path =
     (if startsWith path ''<'' \<and> endsWith path ''>'' then substr path 1 (length path - 2) else path)"

fun unwords :: "string list \<Rightarrow> string" where
  "unwords [] = []"
| "unwords (t # ts) = t @ concat (map (\<lambda>x. CHR '' '' # x) ts)"

definition canonical_tokens :: "string list \<Rightarrow> string list" where
  "canonical_tokens ts =
     (case ts of
        v # a # ps \<Rightarrow>
          if v = ''MAIL'' then v # (''FROM:<'' @ unbracket (drop 5 a) @ ''>'') # ps
          else if v = ''RCPT'' then v # (''TO:<'' @ unbracket (drop 3 a) @ ''>'') # ps
          else ts
      | _ \<Rightarrow> ts)"

definition canonical_line :: "string \<Rightarrow> string" where
  "canonical_line line = unwords (canonical_tokens (split_ws (trim line))) @ CRLF"

text \<open>
  Well-formed arguments. The path token of MAIL and RCPT starts with the keyword, the path
  after it is not empty, and a path that opens with \<^verbatim>\<open><\<close> ends with \<^verbatim>\<open>>\<close>; for RCPT the
  path inside the brackets is not empty. EHLO has its domain. No parameter has the keyword
  \<^verbatim>\<open>__proto__\<close> (which is not an ESMTP keyword, and which a JavaScript object does not
  keep as a property of its own).
\<close>

definition well_formed_path :: "string \<Rightarrow> string \<Rightarrow> bool" where
  "well_formed_path kw a \<longleftrightarrow>
     startsWith a kw \<and> drop (length kw) a \<noteq> [] \<and>
     (startsWith (drop (length kw) a) ''<'' \<longrightarrow> endsWith (drop (length kw) a) ''>'')"

definition param_keyword :: "string \<Rightarrow> string" where
  "param_keyword t = takeWhile (\<lambda>c. c \<noteq> CHR ''='') t"

definition well_formed :: "string list \<Rightarrow> bool" where
  "well_formed ts =
     (case ts of
        [] \<Rightarrow> False
      | v # rest \<Rightarrow>
          v \<noteq> [] \<and>
          (if v = ''EHLO'' then rest \<noteq> [] \<and> (\<forall>t\<in>set (tl rest). param_keyword t \<noteq> ''__proto__'')
           else if v = ''MAIL'' then
             rest \<noteq> [] \<and> well_formed_path ''FROM:'' (hd rest) \<and>
             (\<forall>t\<in>set (tl rest). param_keyword t \<noteq> ''__proto__'')
           else if v = ''RCPT'' then
             rest \<noteq> [] \<and> well_formed_path ''TO:'' (hd rest) \<and>
             unbracket (drop 3 (hd rest)) \<noteq> [] \<and>
             (\<forall>t\<in>set (tl rest). param_keyword t \<noteq> ''__proto__'')
           else (\<forall>t\<in>set rest. param_keyword t \<noteq> ''__proto__'')))"

text \<open>
  A sequence of reply lines that forms one consistent multi-line reply: the same code on
  every line, no line before the last is marked as last, and the last line is.
\<close>

definition consistent_reply :: "int \<Rightarrow> ReplyLine list \<Rightarrow> bool" where
  "consistent_reply c xs \<longleftrightarrow>
     xs \<noteq> [] \<and> (\<forall>l\<in>set xs. line_code l = c) \<and> (\<forall>l\<in>set (butlast xs). \<not> isLast l) \<and>
     isLast (last xs)"

text \<open>
  A reply line on the wire: the code, a space on the final line and \<^verbatim>\<open>-\<close> on any other,
  the message, CRLF.
\<close>

definition wire_line :: "int \<Rightarrow> bool \<Rightarrow> string \<Rightarrow> string" where
  "wire_line c final msg = number_toString c @ (if final then '' '' else ''-'') @ msg @ CRLF"

definition wire_lines :: "ReplyLine list \<Rightarrow> string" where
  "wire_lines xs = concat (map (\<lambda>l. wire_line (line_code l) (isLast l) (line_message l)) xs)"

text \<open>
  The calls a checkpoint makes, read off the log of a session: the calls of listeners and
  of the continuation (\<open>calls\<close>), or of listeners only (\<open>invokes\<close>). \<open>successes\<close> counts the
  calls of the callback without an error among the events.
\<close>

fun is_call :: "action \<Rightarrow> bool" where
  "is_call (Invoke i) = True"
| "is_call Proceed = True"
| "is_call _ = False"

definition calls :: "action list \<Rightarrow> action list" where
  "calls l = filter is_call l"

fun is_invoke :: "action \<Rightarrow> bool" where
  "is_invoke (Invoke i) = True"
| "is_invoke _ = False"

definition invokes :: "action list \<Rightarrow> action list" where
  "invokes l = filter is_invoke l"

definition successes :: "event list \<Rightarrow> nat" where
  "successes evs = length (filter (\<lambda>e. e = Callback None) evs)"

text \<open>A session that has not ended, is not connected and has done nothing yet.\<close>

definition fresh_session :: session where
  "fresh_session = \<lparr> ended = False, connected = False, state_error = None, log = [] \<rparr>"

text \<open>
  A message body made of lines that each end in CRLF: \<open>crlf_lines\<close> of the lines without
  their terminators. \<open>nul_dot\<close> tells whether a NUL byte stands directly before a dot
  somewhere in a line, and \<open>plain_body\<close> is a line without CR and LF where that is not so.
  \<open>stuffed\<close> is the line as it travels, with a dot put before a leading dot.
\<close>

definition crlf_lines :: "byte list list \<Rightarrow> byte list" where
  "crlf_lines bodies = concat (map (\<lambda>b. b @ [CR, LF]) bodies)"

fun nul_dot :: "byte list \<Rightarrow> bool" where
  "nul_dot (x # y # r) = (x = 0x00 \<and> y = DOT \<or> nul_dot (y # r))"
| "nul_dot r = False"

definition plain_body :: "byte list \<Rightarrow> bool" where
  "plain_body b \<longleftrightarrow> CR \<notin> set b \<and> LF \<notin> set b \<and> \<not> nul_dot b"

definition stuffed :: "byte list \<Rightarrow> byte list" where
  "stuffed b = (if b \<noteq> [] \<and> hd b = DOT then DOT # b else b)"

section \<open>Invariants used in the proofs\<close>

text \<open>
  A checkpoint that makes no further call: its timeout is not scheduled, and its callback
  returns at once because the variable \<^verbatim>\<open>timer\<close> is cleared or the session has ended.
\<close>

definition quiet :: "checkpoint \<times> session \<Rightarrow> bool" where
  "quiet ks \<longleftrightarrow> \<not> armed (fst ks) \<and> (\<not> timer (fst ks) \<or> ended (snd ks))"

text \<open>
  What holds of a decoder between bytes: the buffer size has not passed the end of the
  buffer, and the buffer is no longer than the line limit. A run from such a state ends in
  such a state or with \<open>RangeError\<close>.
\<close>

definition dec_inv :: "DotDecoder \<Rightarrow> bool" where
  "dec_inv s \<longleftrightarrow>
     dec_bufferSize s \<le> int (length (dec_buffer s)) \<and>
     int (length (dec_buffer s)) \<le> dec_maxLineLength s"

fun dec_ok :: "error + DotDecoder \<Rightarrow> bool" where
  "dec_ok (Inl e) = (e = RangeError)"
| "dec_ok (Inr s) = dec_inv s"

text \<open>
  A consumer that reads at every push and holds nothing back.
\<close>

definition live :: "consumer \<Rightarrow> bool" where
  "live out \<longleftrightarrow> reader out = AtPush \<and> held out = []"

text \<open>
  The encoder seen from outside, for such a consumer. \<open>enc_out\<close> is everything a state has
  written: the bytes the consumer has read and the part of the buffer in use. \<open>enc_live\<close>
  holds of an encoder between bytes. \<open>enc_char\<close> is what the loop writes for one input
  byte after the last character \<open>lc\<close>, \<open>enc_stream\<close> what it writes for a sequence of bytes,
  and \<open>enc_tail\<close> what the flush adds.
\<close>

definition enc_out :: "DotEncoder \<Rightarrow> byte list" where
  "enc_out s = concat (seen (enc_consumer s)) @ take (enc_bufferSize s) (enc_buffer s)"

definition enc_live :: "DotEncoder \<Rightarrow> bool" where
  "enc_live s \<longleftrightarrow> enc_bufferSize s < length (enc_buffer s) \<and> live (enc_consumer s)"

definition enc_prefix :: "byte \<Rightarrow> byte \<Rightarrow> byte list" where
  "enc_prefix lc c =
     (if lc = CR \<and> c \<noteq> LF then LF # (if c = DOT then [DOT] else [])
      else if c = LF \<and> lc \<noteq> CR then [CR]
      else if (lc = 0x00 \<or> lc = LF) \<and> c = DOT then [DOT]
      else [])"

definition enc_char :: "byte \<Rightarrow> byte \<Rightarrow> byte list" where
  "enc_char lc c = enc_prefix lc c @ [c]"

fun enc_stream :: "byte \<Rightarrow> byte list \<Rightarrow> byte list" where
  "enc_stream lc [] = []"
| "enc_stream lc (c # cs) = enc_char lc c @ enc_stream c cs"

definition enc_tail :: "byte \<Rightarrow> byte list" where
  "enc_tail lc = (if lc = CR then [LF] else if lc \<noteq> LF then [CR, LF] else []) @ [DOT, CR, LF]"

text \<open>
  The decoder on lists instead of a buffer: \<open>cur\<close> is the line collected so far, \<open>out\<close> the
  chunks read by a consumer that reads at every push, and the result tells whether the
  end-of-data line was met. \<open>drel\<close> relates a decoder state with such a consumer to the
  line collected so far, and \<open>rres\<close> the two results.
\<close>

fun adec ::
  "nat \<Rightarrow> byte list \<Rightarrow> byte list list \<Rightarrow> byte \<Rightarrow> byte list
   \<Rightarrow> error + (byte list \<times> byte list list \<times> bool)" where
  "adec cap cur out lc [] = Inr (cur, out, False)"
| "adec cap cur out lc (c # cs) =
     (if length cur \<ge> cap then Inl RangeError
      else if lc = CR \<and> c = LF then
        (if hd (cur @ [c]) = DOT then
           (if length cur = 2 then Inr (cur @ [c], out, True)
            else adec cap [] (out @ [tl (cur @ [c])]) c cs)
         else adec cap [] (out @ [cur @ [c]]) c cs)
      else adec cap (cur @ [c]) out c cs)"

definition drel :: "DotDecoder \<Rightarrow> byte list \<Rightarrow> bool" where
  "drel s cur \<longleftrightarrow>
     dec_bufferSize s = int (length cur) \<and> take (length cur) (dec_buffer s) = cur \<and>
     length cur \<le> length (dec_buffer s) \<and>
     int (length (dec_buffer s)) \<le> dec_maxLineLength s \<and> \<not> dec_ended s \<and>
     live (dec_consumer s) \<and>
     (dec_buffer s \<noteq> [] \<and> last (dec_buffer s) = CR \<longrightarrow> length cur = length (dec_buffer s))"

fun rres ::
  "nat \<Rightarrow> error + DotDecoder \<Rightarrow> error + (byte list \<times> byte list list \<times> bool) \<Rightarrow> bool" where
  "rres cap (Inl e) (Inl e') = (e = e')"
| "rres cap (Inr s) (Inr (cur, out, fin)) =
     (seen (dec_consumer s) = out \<and> live (dec_consumer s) \<and> dec_ended s = fin \<and>
      length (dec_buffer s) = cap \<and>
      (\<not> fin \<longrightarrow> drel s cur))"
| "rres cap _ _ = False"

definition adec_cont ::
  "nat \<Rightarrow> error + (byte list \<times> byte list list \<times> bool) \<Rightarrow> byte \<Rightarrow> byte list
   \<Rightarrow> error + (byte list \<times> byte list list \<times> bool)" where
  "adec_cont cap r lc b =
     (case r of
        Inl e \<Rightarrow> Inl e
      | Inr (cur', out', fin) \<Rightarrow>
          if fin then Inr (cur', out', True) else adec cap cur' out' lc b)"

section \<open>Properties of the command parser\<close>

lemma split_ws_single: "\<forall>c\<in>set s. non_space c \<Longrightarrow> split_ws s = [s]"
  by (subst split_ws.simps) simp

lemma split_ws_more:
  "\<not> (\<forall>c\<in>set s. non_space c) \<Longrightarrow>
   split_ws s = takeWhile non_space s # split_ws (dropWhile is_space (dropWhile non_space s))"
  by (subst split_ws.simps) (simp only: dropWhile_eq_Nil_conv if_False)

lemma split_ws_non_space: "t \<in> set (split_ws s) \<Longrightarrow> c \<in> set t \<Longrightarrow> non_space c"
proof (induction s rule: split_ws.induct)
  case (1 s)
  show ?case
  proof (cases "\<forall>c\<in>set s. non_space c")
    case True
    then show ?thesis using "1.prems" by (simp add: split_ws_single)
  next
    case False
    then have "t = takeWhile non_space s
        \<or> t \<in> set (split_ws (dropWhile is_space (dropWhile non_space s)))"
      using "1.prems"(1) by (simp add: split_ws_more)
    then show ?thesis
    proof
      assume "t = takeWhile non_space s"
      then show ?thesis using "1.prems"(2) by (auto dest: set_takeWhileD)
    next
      assume "t \<in> set (split_ws (dropWhile is_space (dropWhile non_space s)))"
      moreover have "dropWhile non_space s \<noteq> []" using False by simp
      ultimately show ?thesis using "1.IH" "1.prems"(2) by blast
    qed
  qed
qed

lemma exec_keyword_prefix:
  assumes "path \<noteq> []" and "\<forall>c\<in>set path. non_space c"
  shows "exec_keyword kw (kw @ path) = Some path"
proof -
  obtain c cs where e: "kw @ path = c # cs" using assms(1) by (cases "kw @ path") auto
  have t: "takeWhile non_space path = path" using assms(2) by simp
  have "startsWith (kw @ path) kw" by (simp add: startsWith_def)
  moreover have "takeWhile non_space (drop (length kw) (kw @ path)) = path" using t by simp
  ultimately have "exec_keyword kw (c # cs) = Some path"
    using assms(1) unfolding e by simp
  then show ?thesis using e by simp
qed

lemma parse_path_unclosed:
  assumes "startsWith path ''<''" and "\<not> endsWith path ''>''" and "\<forall>c\<in>set path. non_space c"
  shows "parse_path kw (kw @ path) = Inl MissingArgumentError"
proof -
  have "path \<noteq> []" using assms(1) by (auto simp: startsWith_def)
  then show ?thesis using assms by (simp add: parse_path_def exec_keyword_prefix)
qed

lemma parse_path_empty_brackets: "parse_path kw (kw @ ''<>'') = Inr []"
proof -
  have "exec_keyword kw (kw @ ''<>'') = Some ''<>''"
    by (rule exec_keyword_prefix) (simp_all add: is_space_def)
  then show ?thesis by (simp add: parse_path_def startsWith_def endsWith_def substr_def)
qed

text \<open>What \<open>parseCommandLine\<close> does once the line has passed the checks on the whole line.\<close>

lemma parseCommandLine_tokens:
  assumes "line \<noteq> []" and "int (length (trim line)) \<le> maxLineLength p - 2"
    and "\<not> has_linebreak (trim line)" and "split_ws (trim line) = v # parts"
  shows "parseCommandLine p line =
     (if v = ''EHLO'' then
        (case parts of
           [] \<Rightarrow> Inl MissingArgumentError
         | d # ps \<Rightarrow>
             Inr \<lparr> verb = v, domain = Some d, returnPath = None, forwardPath = None,
                   params = map parse_param ps \<rparr>)
      else if v = ''MAIL'' then
        (case parts of
           [] \<Rightarrow> Inl MissingArgumentError
         | a # ps \<Rightarrow>
             (case parse_path ''FROM:'' a of
                Inl e \<Rightarrow> Inl e
              | Inr rp \<Rightarrow>
                  Inr \<lparr> verb = v, domain = None, returnPath = Some rp,
                        forwardPath = None, params = map parse_param ps \<rparr>))
      else if v = ''RCPT'' then
        (case parts of
           [] \<Rightarrow> Inl MissingArgumentError
         | a # ps \<Rightarrow>
             (case parse_path ''TO:'' a of
                Inl e \<Rightarrow> Inl e
              | Inr fp \<Rightarrow>
                  if fp = [] then Inl MissingArgumentError
                  else
                    Inr \<lparr> verb = v, domain = None, returnPath = None,
                          forwardPath = Some fp, params = map parse_param ps \<rparr>))
      else
        Inr \<lparr> verb = v, domain = None, returnPath = None, forwardPath = None,
              params = map parse_param parts \<rparr>)"
  using assms unfolding parseCommandLine_def Let_def by simp

text \<open>
  C6. A MAIL command with the token \<^verbatim>\<open>FROM:<>\<close> parses without error to the empty return
  path, a RCPT command with the token \<^verbatim>\<open>TO:<>\<close> fails with \<open>MissingArgumentError\<close>, and
  for both verbs a path that opens with \<^verbatim>\<open><\<close> and does not end with \<^verbatim>\<open>>\<close> fails with
  \<open>MissingArgumentError\<close>. The line is one that passes the checks made on every command
  line (not empty, within the length limit, no CR or LF inside).
\<close>

theorem empty_path_and_unclosed_bracket:
  assumes "line \<noteq> []" and "int (length (trim line)) \<le> maxLineLength p - 2"
    and "\<not> has_linebreak (trim line)"
  shows
    "(split_ws (trim line) = ''MAIL'' # ''FROM:<>'' # ps \<longrightarrow>
        parseCommandLine p line =
          Inr \<lparr> verb = ''MAIL'', domain = None, returnPath = Some [], forwardPath = None,
                params = map parse_param ps \<rparr>) \<and>
     (split_ws (trim line) = ''RCPT'' # ''TO:<>'' # ps \<longrightarrow>
        parseCommandLine p line = Inl MissingArgumentError) \<and>
     (split_ws (trim line) = ''MAIL'' # (''FROM:'' @ path) # ps \<and>
      startsWith path ''<'' \<and> \<not> endsWith path ''>'' \<longrightarrow>
        parseCommandLine p line = Inl MissingArgumentError) \<and>
     (split_ws (trim line) = ''RCPT'' # (''TO:'' @ path) # ps \<and>
      startsWith path ''<'' \<and> \<not> endsWith path ''>'' \<longrightarrow>
        parseCommandLine p line = Inl MissingArgumentError)"
proof (intro conjI impI)
  assume t: "split_ws (trim line) = ''MAIL'' # ''FROM:<>'' # ps"
  have "parse_path ''FROM:'' (''FROM:'' @ ''<>'') = Inr []"
    by (rule parse_path_empty_brackets)
  then show "parseCommandLine p line =
      Inr \<lparr> verb = ''MAIL'', domain = None, returnPath = Some [], forwardPath = None,
            params = map parse_param ps \<rparr>"
    using parseCommandLine_tokens [OF assms t] by simp
next
  assume t: "split_ws (trim line) = ''RCPT'' # ''TO:<>'' # ps"
  have "parse_path ''TO:'' (''TO:'' @ ''<>'') = Inr []"
    by (rule parse_path_empty_brackets)
  then show "parseCommandLine p line = Inl MissingArgumentError"
    using parseCommandLine_tokens [OF assms t] by simp
next
  assume a: "split_ws (trim line) = ''MAIL'' # (''FROM:'' @ path) # ps \<and>
      startsWith path ''<'' \<and> \<not> endsWith path ''>''"
  then have t: "split_ws (trim line) = ''MAIL'' # (''FROM:'' @ path) # ps" by simp
  have "\<forall>c\<in>set path. non_space c"
    using split_ws_non_space [of "''FROM:'' @ path" "trim line"] t by auto
  then have "parse_path ''FROM:'' (''FROM:'' @ path) = Inl MissingArgumentError"
    using a parse_path_unclosed by blast
  then show "parseCommandLine p line = Inl MissingArgumentError"
    using parseCommandLine_tokens [OF assms t] by simp
next
  assume a: "split_ws (trim line) = ''RCPT'' # (''TO:'' @ path) # ps \<and>
      startsWith path ''<'' \<and> \<not> endsWith path ''>''"
  then have t: "split_ws (trim line) = ''RCPT'' # (''TO:'' @ path) # ps" by simp
  have "\<forall>c\<in>set path. non_space c"
    using split_ws_non_space [of "''TO:'' @ path" "trim line"] t by auto
  then have "parse_path ''TO:'' (''TO:'' @ path) = Inl MissingArgumentError"
    using a parse_path_unclosed by blast
  then show "parseCommandLine p line = Inl MissingArgumentError"
    using parseCommandLine_tokens [OF assms t] by simp
qed

theorem empty_path_and_unclosed_bracket_witness:
  "parseCommandLine new_SMTPCmdLineParser ''MAIL FROM:<>'' =
     Inr \<lparr> verb = ''MAIL'', domain = None, returnPath = Some [], forwardPath = None,
           params = [] \<rparr> \<and>
   parseCommandLine new_SMTPCmdLineParser ''RCPT TO:<>'' = Inl MissingArgumentError \<and>
   parseCommandLine new_SMTPCmdLineParser ''MAIL FROM:<a@b'' = Inl MissingArgumentError \<and>
   parseCommandLine new_SMTPCmdLineParser ''RCPT TO:<a@b'' = Inl MissingArgumentError"
proof -
  let ?p = new_SMTPCmdLineParser
  have m: "''MAIL FROM:<>'' \<noteq> []" "int (length (trim ''MAIL FROM:<>'')) \<le> maxLineLength ?p - 2"
    "\<not> has_linebreak (trim ''MAIL FROM:<>'')"
    "split_ws (trim ''MAIL FROM:<>'') = ''MAIL'' # ''FROM:<>'' # []"
    by code_simp+
  have r: "''RCPT TO:<>'' \<noteq> []" "int (length (trim ''RCPT TO:<>'')) \<le> maxLineLength ?p - 2"
    "\<not> has_linebreak (trim ''RCPT TO:<>'')"
    "split_ws (trim ''RCPT TO:<>'') = ''RCPT'' # ''TO:<>'' # []"
    by code_simp+
  have mu: "''MAIL FROM:<a@b'' \<noteq> []"
    "int (length (trim ''MAIL FROM:<a@b'')) \<le> maxLineLength ?p - 2"
    "\<not> has_linebreak (trim ''MAIL FROM:<a@b'')"
    "split_ws (trim ''MAIL FROM:<a@b'') = ''MAIL'' # (''FROM:'' @ ''<a@b'') # []"
    "startsWith ''<a@b'' ''<''" "\<not> endsWith ''<a@b'' ''>''"
    by code_simp+
  have ru: "''RCPT TO:<a@b'' \<noteq> []"
    "int (length (trim ''RCPT TO:<a@b'')) \<le> maxLineLength ?p - 2"
    "\<not> has_linebreak (trim ''RCPT TO:<a@b'')"
    "split_ws (trim ''RCPT TO:<a@b'') = ''RCPT'' # (''TO:'' @ ''<a@b'') # []"
    "startsWith ''<a@b'' ''<''" "\<not> endsWith ''<a@b'' ''>''"
    by code_simp+
  show ?thesis
    using empty_path_and_unclosed_bracket [OF m(1-3), of "[]" "[]"] m(4)
      empty_path_and_unclosed_bracket [OF r(1-3), of "[]" "[]"] r(4)
      empty_path_and_unclosed_bracket [OF mu(1-3), of "[]" "''<a@b''"] mu(4-6)
      empty_path_and_unclosed_bracket [OF ru(1-3), of "[]" "''<a@b''"] ru(4-6)
    by simp
qed

text \<open>
  C10. The verb is compared by strict equality with \<^verbatim>\<open>EHLO\<close>, \<^verbatim>\<open>MAIL\<close> and \<^verbatim>\<open>RCPT\<close>. A
  first token that is one of these words in another letter case selects none of the three
  branches: on a line that passes the checks made on every command line, the parse succeeds,
  the result has no domain, return path or forward path, and every token after the verb is
  parsed as a parameter.
\<close>

theorem verb_dispatch_is_case_sensitive:
  assumes "line \<noteq> []" and "int (length (trim line)) \<le> maxLineLength p - 2"
    and "\<not> has_linebreak (trim line)" and "split_ws (trim line) = v # parts"
    and "case_variant v ''EHLO'' \<or> case_variant v ''MAIL'' \<or> case_variant v ''RCPT''"
  shows "parseCommandLine p line =
     Inr \<lparr> verb = v, domain = None, returnPath = None, forwardPath = None,
           params = map parse_param parts \<rparr>"
proof -
  have u: "toUpperCase ''EHLO'' = ''EHLO''" "toUpperCase ''MAIL'' = ''MAIL''"
    "toUpperCase ''RCPT'' = ''RCPT''"
    by code_simp+
  have "v \<noteq> ''EHLO'' \<and> v \<noteq> ''MAIL'' \<and> v \<noteq> ''RCPT''"
    using assms(5) u unfolding case_variant_def by auto
  then show ?thesis
    using parseCommandLine_tokens [OF assms(1-4)] by simp
qed

theorem verb_dispatch_is_case_sensitive_witness:
  "case_variant ''mail'' ''MAIL'' \<and>
   parseCommandLine new_SMTPCmdLineParser ''mail FROM:<a@b>'' =
     Inr \<lparr> verb = ''mail'', domain = None, returnPath = None, forwardPath = None,
           params = [PObj [(''FROM:<a@b>'', PTrue)]] \<rparr>"
proof -
  let ?p = new_SMTPCmdLineParser
  have h: "''mail FROM:<a@b>'' \<noteq> []"
    "int (length (trim ''mail FROM:<a@b>'')) \<le> maxLineLength ?p - 2"
    "\<not> has_linebreak (trim ''mail FROM:<a@b>'')"
    "split_ws (trim ''mail FROM:<a@b>'') = ''mail'' # [''FROM:<a@b>'']"
    by code_simp+
  have c: "case_variant ''mail'' ''MAIL''" by code_simp
  have q: "map parse_param [''FROM:<a@b>''] = [PObj [(''FROM:<a@b>'', PTrue)]]" by code_simp
  show ?thesis
    using verb_dispatch_is_case_sensitive [OF h] c q by simp
qed


subsection \<open>Round trip\<close>

lemma trim_id:
  assumes "x \<noteq> []" and "non_space (hd x)" and "non_space (last x)"
  shows "trim x = x"
proof -
  have a: "dropWhile is_space x = x" using assms(1,2) by (cases x) auto
  have "rev x \<noteq> []" "non_space (hd (rev x))" using assms(1,3) by (simp_all add: hd_rev)
  then have "dropWhile is_space (rev x) = rev x" by (cases "rev x") auto
  then show ?thesis using a by (simp add: trim_def trimRight_def)
qed

lemma trimRight_ends:
  "trimRight u = [] \<or> non_space (last (trimRight u))"
proof (cases "dropWhile is_space (rev u) = []")
  case True
  then show ?thesis by (simp add: trimRight_def)
next
  case False
  then have "non_space (hd (dropWhile is_space (rev u)))" by (rule hd_dropWhile)
  then show ?thesis using False by (simp add: trimRight_def last_rev)
qed

lemma trimRight_prefix: "\<exists>w. u = trimRight u @ w"
proof -
  have "rev u = takeWhile is_space (rev u) @ dropWhile is_space (rev u)" by simp
  then have "rev (rev u) = rev (takeWhile is_space (rev u) @ dropWhile is_space (rev u))"
    by simp
  then have "u = rev (dropWhile is_space (rev u)) @ rev (takeWhile is_space (rev u))"
    by (simp del: takeWhile_dropWhile_id)
  then show ?thesis unfolding trimRight_def by blast
qed

lemma trim_ends:
  "trim s = [] \<or> (non_space (hd (trim s)) \<and> non_space (last (trim s)))"
proof (cases "trim s = []")
  case True
  then show ?thesis by simp
next
  case False
  let ?u = "dropWhile is_space s"
  have t: "trim s = trimRight ?u" by (simp add: trim_def)
  obtain w where w: "?u = trimRight ?u @ w" using trimRight_prefix by blast
  have tn: "trimRight [] = []" by (simp add: trimRight_def)
  have "?u \<noteq> []" using False t tn by metis
  then have "non_space (hd ?u)" by (rule hd_dropWhile)
  moreover have "hd ?u = hd (trimRight ?u)" using w False t by (metis hd_append2)
  ultimately have "non_space (hd (trim s))" using t by simp
  moreover have "non_space (last (trim s))" using trimRight_ends [of ?u] False t by simp
  ultimately show ?thesis by simp
qed

lemma last_dropWhile: "dropWhile P xs \<noteq> [] \<Longrightarrow> last (dropWhile P xs) = last xs"
  by (metis last_appendR takeWhile_dropWhile_id)

lemma split_ws_tokens_nonempty:
  "s \<noteq> [] \<Longrightarrow> non_space (hd s) \<Longrightarrow> non_space (last s) \<Longrightarrow> [] \<notin> set (split_ws s)"
proof (induction s rule: split_ws.induct)
  case (1 s)
  show ?case
  proof (cases "\<forall>c\<in>set s. non_space c")
    case True
    then show ?thesis using "1.prems"(1) by (simp add: split_ws_single)
  next
    case False
    define r where "r = dropWhile non_space s"
    define s' where "s' = dropWhile is_space r"
    have rne: "r \<noteq> []" unfolding r_def using False by simp
    have tk: "takeWhile non_space s \<noteq> []" using "1.prems"(1,2) by (cases s) auto
    have lr: "last r = last s" unfolding r_def using rne r_def by (simp add: last_dropWhile)
    have s'ne: "s' \<noteq> []"
    proof
      assume "s' = []"
      then have "\<forall>c\<in>set r. is_space c" unfolding s'_def by (metis dropWhile_eq_Nil_conv)
      then have "is_space (last r)" using rne by simp
      then show False using lr "1.prems"(3) by simp
    qed
    have hd': "non_space (hd s')" unfolding s'_def using s'ne s'_def by (simp add: hd_dropWhile)
    have "last s' = last r" unfolding s'_def using s'ne s'_def by (simp add: last_dropWhile)
    then have la': "non_space (last s')" using lr "1.prems"(3) by simp
    have eq: "split_ws s = takeWhile non_space s # split_ws s'"
      unfolding s'_def r_def using False by (rule split_ws_more)
    have "[] \<notin> set (split_ws s')"
      using "1.IH" rne s'ne hd' la' unfolding s'_def r_def by blast
    then show ?thesis unfolding eq using tk by simp
  qed
qed

lemma tokens_of_trimmed:
  assumes "t \<in> set (split_ws (trim line))" and "trim line \<noteq> []"
  shows "t \<noteq> [] \<and> (\<forall>c\<in>set t. non_space c)"
proof -
  have "non_space (hd (trim line))" "non_space (last (trim line))"
    using trim_ends [of line] assms(2) by auto
  then have "[] \<notin> set (split_ws (trim line))"
    using split_ws_tokens_nonempty assms(2) by blast
  then show ?thesis using assms(1) split_ws_non_space by metis
qed

lemma render_parse_param:
  assumes "\<forall>c\<in>set t. non_space c" and "param_keyword t \<noteq> ''__proto__''"
  shows "render_param (parse_param t) = '' '' @ t"
proof -
  let ?k = "takeWhile (\<lambda>c. c \<noteq> CHR ''='') t"
  let ?r = "dropWhile (\<lambda>c. c \<noteq> CHR ''='') t"
  have t: "t = ?k @ ?r" by simp
  have "set (drop 1 ?r) \<subseteq> set t" by (metis set_drop_subset set_dropWhileD subsetI subsetD)
  then have "\<forall>c\<in>set (drop 1 ?r). c \<noteq> CHR 0x0A \<and> c \<noteq> CHR 0x0D"
    using assms(1) by (auto simp: is_space_def)
  then have v: "takeWhile (\<lambda>c. c \<noteq> CHR 0x0A \<and> c \<noteq> CHR 0x0D) (drop 1 ?r) = drop 1 ?r"
    by (simp add: takeWhile_eq_all_conv)
  have pp: "parse_param t =
      (if drop 1 ?r = [] then set_property t PTrue else set_property ?k (PStr (drop 1 ?r)))"
    unfolding parse_param_def Let_def v by (rule refl)
  have kp: "?k \<noteq> ''__proto__''" using assms(2) by (simp add: param_keyword_def)
  show ?thesis
  proof (cases "drop 1 ?r = []")
    case True
    have "t \<noteq> ''__proto__''"
    proof (cases "?r = []")
      case True
      then have "t = ?k" using t by (metis append_Nil2)
      then show ?thesis using kp by metis
    next
      case False
      then have "hd ?r = CHR ''=''" using hd_dropWhile [of "\<lambda>c. c \<noteq> CHR ''=''" t] by blast
      then have "CHR ''='' \<in> set ?r" using False by (metis hd_in_set)
      then have "CHR ''='' \<in> set t" by (metis set_dropWhileD)
      then show ?thesis by auto
    qed
    then have "render_param (set_property t PTrue) = '' '' @ t"
      by (simp add: set_property_def render_param_def render_property_def)
    then show ?thesis using True pp by metis
  next
    case False
    then have rne: "?r \<noteq> []" by (metis drop_Nil)
    then have "hd ?r = CHR ''=''" using hd_dropWhile [of "\<lambda>c. c \<noteq> CHR ''=''" t] by blast
    then have "?r = CHR ''='' # drop 1 ?r" using rne by (metis One_nat_def drop0 drop_Suc list.collapse)
    then have e: "t = ?k @ ''='' @ drop 1 ?r" using t by (metis append_Cons append_Nil)
    have "render_param (set_property ?k (PStr (drop 1 ?r))) = '' '' @ ?k @ ''='' @ drop 1 ?r"
      using kp False by (simp add: set_property_def render_param_def render_property_def)
    then show ?thesis using False pp e by metis
  qed
qed

lemma render_parse_params:
  assumes "\<forall>t\<in>set ps. (\<forall>c\<in>set t. non_space c) \<and> param_keyword t \<noteq> ''__proto__''"
  shows "concat (map render_param (map parse_param ps)) = concat (map (\<lambda>x. CHR '' '' # x) ps)"
  using assms by (induction ps) (simp_all add: render_parse_param)

lemma last_concat_map:
  "rest \<noteq> [] \<Longrightarrow> f (last rest) \<noteq> [] \<Longrightarrow>
   last (pre @ concat (map f rest)) = last (f (last rest))"
proof (induction rest arbitrary: pre)
  case Nil
  then show ?case by simp
next
  case (Cons x xs)
  show ?case
  proof (cases "xs = []")
    case True
    then show ?thesis using Cons.prems by simp
  next
    case False
    then have "last ((pre @ f x) @ concat (map f xs)) = last (f (last xs))"
      using Cons.IH [of "pre @ f x"] Cons.prems by simp
    then show ?thesis using False by simp
  qed
qed

lemma trim_unwords:
  assumes "ts \<noteq> []" and "\<forall>t\<in>set ts. t \<noteq> [] \<and> (\<forall>c\<in>set t. non_space c)"
  shows "trim (unwords ts) = unwords ts"
proof -
  obtain v rest where ts: "ts = v # rest" using assms(1) by (cases ts) auto
  have v: "v \<noteq> []" "non_space (hd v)" "non_space (last v)" using assms(2) ts by auto
  have ne: "unwords ts \<noteq> []" using ts v by simp
  have h: "non_space (hd (unwords ts))" using ts v by simp
  have l: "non_space (last (unwords ts))"
  proof (cases "rest = []")
    case True
    then show ?thesis using ts v by simp
  next
    case False
    have "last rest \<in> set ts" using False ts by simp
    then have lr: "last rest \<noteq> []" "non_space (last (last rest))" using assms(2) by auto
    have "last (v @ concat (map (\<lambda>x. CHR '' '' # x) rest)) = last (CHR '' '' # last rest)"
      using False by (rule last_concat_map) simp
    then have "last (unwords ts) = last (last rest)" using ts lr by simp
    then show ?thesis using lr by simp
  qed
  show ?thesis using ne h l by (rule trim_id)
qed

lemma unbracket_set: "set (unbracket path) \<subseteq> set path"
  by (auto simp: unbracket_def substr_def dest: in_set_takeD in_set_dropD)

lemma parse_path_well_formed:
  assumes "well_formed_path kw a" and "\<forall>c\<in>set a. non_space c"
  shows "parse_path kw a = Inr (unbracket (drop (length kw) a))"
proof -
  define path where "path = drop (length kw) a"
  have a: "a = kw @ path"
    using assms(1) unfolding well_formed_path_def startsWith_def path_def
    by (metis append_take_drop_id)
  have pn: "path \<noteq> []" and br: "startsWith path ''<'' \<longrightarrow> endsWith path ''>''"
    using assms(1) unfolding well_formed_path_def path_def by auto
  have "\<forall>c\<in>set path. non_space c" using assms(2) a by auto
  then have "exec_keyword kw a = Some path" using a pn exec_keyword_prefix by metis
  then show ?thesis
    using br unfolding parse_path_def unbracket_def path_def [symmetric] by auto
qed

lemma serializeCommand_result:
  assumes "verb c \<noteq> []" and "verb_part c = Inr H"
    and "trim (H @ concat (map render_param (params c))) = W"
    and "int (length (W @ CRLF)) \<le> maxLineLength p"
  shows "serializeCommand p (Some c) = Inr (W @ CRLF)"
  using assms by (simp add: serializeCommand_def Let_def)

lemma well_formed_tokens:
  assumes "well_formed (split_ws (trim line))"
  obtains v rest where "split_ws (trim line) = v # rest" and "v \<noteq> []" and "line \<noteq> []"
    and "\<forall>t\<in>set (v # rest). t \<noteq> [] \<and> (\<forall>c\<in>set t. non_space c)"
proof -
  obtain v rest where ts: "split_ws (trim line) = v # rest" and vne: "v \<noteq> []"
    using assms by (auto simp: well_formed_def split: list.splits)
  have e: "split_ws [] = [[]]" by (simp add: split_ws_single)
  have tne: "trim line \<noteq> []"
  proof
    assume "trim line = []"
    then have "split_ws (trim line) = [[]]" using e by simp
    then show False using ts vne by simp
  qed
  have "trim [] = []" by (simp add: trim_def trimRight_def)
  then have lne: "line \<noteq> []" using tne by metis
  have "\<forall>t\<in>set (v # rest). t \<noteq> [] \<and> (\<forall>c\<in>set t. non_space c)"
    using tokens_of_trimmed [OF _ tne] ts by metis
  then show ?thesis using that ts vne lne by blast
qed

text \<open>
  C5, as the code has it. For a command line within the length limit, without CR or LF
  inside, whose first token is not empty and whose arguments are well formed: the line
  parses, and the serialization of the parsed command is the canonical form of the line,
  provided the canonical form is within \<open>maxLineLength\<close>.
\<close>

theorem command_round_trip:
  assumes len: "int (length (trim line)) \<le> maxLineLength p - 2"
    and nb: "\<not> has_linebreak (trim line)"
    and wf: "well_formed (split_ws (trim line))"
    and fit: "int (length (canonical_line line)) \<le> maxLineLength p"
  shows "\<exists>c. parseCommandLine p line = Inr c \<and>
              serializeCommand p (Some c) = Inr (canonical_line line)"
proof -
  obtain v rest where ts: "split_ws (trim line) = v # rest" and vne: "v \<noteq> []"
    and lne: "line \<noteq> []"
    and tok: "\<forall>t\<in>set (v # rest). t \<noteq> [] \<and> (\<forall>c\<in>set t. non_space c)"
    using wf by (rule well_formed_tokens)
  note P = parseCommandLine_tokens [OF lne len nb ts]
  have sp: "non_space (CHR ''<'')" "non_space (CHR ''>'')" "non_space (CHR ''F'')"
    "non_space (CHR ''R'')" "non_space (CHR ''O'')" "non_space (CHR ''M'')"
    "non_space (CHR '':'')" "non_space (CHR ''T'')"
    by (simp_all add: is_space_def)
  consider (ehlo) "v = ''EHLO''" | (mail) "v = ''MAIL''" | (rcpt) "v = ''RCPT''"
    | (other) "v \<noteq> ''EHLO''" "v \<noteq> ''MAIL''" "v \<noteq> ''RCPT''"
    by blast
  then show ?thesis
  proof cases
    case ehlo
    then obtain d ps where r: "rest = d # ps"
      and pk: "\<forall>t\<in>set ps. param_keyword t \<noteq> ''__proto__''"
      using wf ts by (cases rest) (auto simp: well_formed_def)
    let ?c = "\<lparr> verb = v, domain = Some d, returnPath = None, forwardPath = None,
                params = map parse_param ps \<rparr>"
    have p: "parseCommandLine p line = Inr ?c" using P ehlo r by simp
    have dne: "d \<noteq> []" using tok r by simp
    have vp: "verb_part ?c = Inr (v @ '' '' @ d)" using ehlo dne by (simp add: verb_part_def)
    have ct: "canonical_tokens (v # rest) = v # d # ps" using ehlo r by (simp add: canonical_tokens_def)
    have rp: "concat (map render_param (map parse_param ps)) = concat (map (\<lambda>x. CHR '' '' # x) ps)"
      using tok r pk by (intro render_parse_params) simp
    have w: "(v @ '' '' @ d) @ concat (map render_param (params ?c)) = unwords (v # d # ps)"
      using rp by simp
    have tr: "trim (unwords (v # d # ps)) = unwords (v # d # ps)"
      using tok r by (intro trim_unwords) simp_all
    have "serializeCommand p (Some ?c) = Inr (unwords (v # d # ps) @ CRLF)"
      using vne vp w tr fit ts ct
      by (intro serializeCommand_result [where H = "v @ '' '' @ d"]) (simp_all add: canonical_line_def)
    then show ?thesis using p ts ct by (simp add: canonical_line_def)
  next
    case mail
    then obtain a ps where r: "rest = a # ps" and wp: "well_formed_path ''FROM:'' a"
      and pk: "\<forall>t\<in>set ps. param_keyword t \<noteq> ''__proto__''"
      using wf ts by (cases rest) (auto simp: well_formed_def)
    define path where "path = unbracket (drop 5 a)"
    have pp: "parse_path ''FROM:'' a = Inr path"
      using parse_path_well_formed [OF wp] tok r by (simp add: path_def eval_nat_numeral)
    let ?c = "\<lparr> verb = v, domain = None, returnPath = Some path, forwardPath = None,
                params = map parse_param ps \<rparr>"
    have p: "parseCommandLine p line = Inr ?c" using P mail r pp by simp
    have vp: "verb_part ?c = Inr (v @ '' FROM:<'' @ path @ ''>'')"
      using mail by (simp add: verb_part_def)
    let ?a = "''FROM:<'' @ path @ ''>''"
    have ct: "canonical_tokens (v # rest) = v # ?a # ps"
      using mail r by (simp add: canonical_tokens_def path_def)
    have pa: "\<forall>c\<in>set path. non_space c"
      using unbracket_set [of "drop 5 a"] tok r unfolding path_def
      by (meson in_set_dropD list.set_intros(1) list.set_intros(2) subsetD)
    have rp: "concat (map render_param (map parse_param ps)) = concat (map (\<lambda>x. CHR '' '' # x) ps)"
      using tok r pk by (intro render_parse_params) simp
    have w: "(v @ '' FROM:<'' @ path @ ''>'') @ concat (map render_param (params ?c)) =
        unwords (v # ?a # ps)"
      using rp by simp
    have tr: "trim (unwords (v # ?a # ps)) = unwords (v # ?a # ps)"
      using tok r pa sp by (intro trim_unwords) auto
    have "serializeCommand p (Some ?c) = Inr (unwords (v # ?a # ps) @ CRLF)"
      using vne vp w tr fit ts ct
      by (intro serializeCommand_result [where H = "v @ '' FROM:<'' @ path @ ''>''"])
         (simp_all add: canonical_line_def)
    then show ?thesis using p ts ct by (simp add: canonical_line_def)
  next
    case rcpt
    then obtain a ps where r: "rest = a # ps" and wp: "well_formed_path ''TO:'' a"
      and ne: "unbracket (drop 3 a) \<noteq> []"
      and pk: "\<forall>t\<in>set ps. param_keyword t \<noteq> ''__proto__''"
      using wf ts by (cases rest) (auto simp: well_formed_def)
    define path where "path = unbracket (drop 3 a)"
    have pp: "parse_path ''TO:'' a = Inr path"
      using parse_path_well_formed [OF wp] tok r by (simp add: path_def eval_nat_numeral)
    have pne: "path \<noteq> []" using ne by (simp add: path_def)
    let ?c = "\<lparr> verb = v, domain = None, returnPath = None, forwardPath = Some path,
                params = map parse_param ps \<rparr>"
    have p: "parseCommandLine p line = Inr ?c" using P rcpt r pp pne by simp
    have vp: "verb_part ?c = Inr (v @ '' TO:<'' @ path @ ''>'')"
      using rcpt pne by (simp add: verb_part_def)
    let ?a = "''TO:<'' @ path @ ''>''"
    have ct: "canonical_tokens (v # rest) = v # ?a # ps"
      using rcpt r by (simp add: canonical_tokens_def path_def)
    have pa: "\<forall>c\<in>set path. non_space c"
      using unbracket_set [of "drop 3 a"] tok r unfolding path_def
      by (meson in_set_dropD list.set_intros(1) list.set_intros(2) subsetD)
    have rp: "concat (map render_param (map parse_param ps)) = concat (map (\<lambda>x. CHR '' '' # x) ps)"
      using tok r pk by (intro render_parse_params) simp
    have w: "(v @ '' TO:<'' @ path @ ''>'') @ concat (map render_param (params ?c)) =
        unwords (v # ?a # ps)"
      using rp by simp
    have tr: "trim (unwords (v # ?a # ps)) = unwords (v # ?a # ps)"
      using tok r pa sp by (intro trim_unwords) auto
    have "serializeCommand p (Some ?c) = Inr (unwords (v # ?a # ps) @ CRLF)"
      using vne vp w tr fit ts ct
      by (intro serializeCommand_result [where H = "v @ '' TO:<'' @ path @ ''>''"])
         (simp_all add: canonical_line_def)
    then show ?thesis using p ts ct by (simp add: canonical_line_def)
  next
    case other
    then have pk: "\<forall>t\<in>set rest. param_keyword t \<noteq> ''__proto__''"
      using wf ts by (auto simp: well_formed_def)
    let ?c = "\<lparr> verb = v, domain = None, returnPath = None, forwardPath = None,
                params = map parse_param rest \<rparr>"
    have p: "parseCommandLine p line = Inr ?c" using P other by simp
    have vp: "verb_part ?c = Inr v" using other by (simp add: verb_part_def)
    have ct: "canonical_tokens (v # rest) = v # rest"
      using other by (simp add: canonical_tokens_def split: list.splits)
    have rp: "concat (map render_param (map parse_param rest)) =
        concat (map (\<lambda>x. CHR '' '' # x) rest)"
      using tok pk by (intro render_parse_params) simp
    have w: "v @ concat (map render_param (params ?c)) = unwords (v # rest)"
      using rp by simp
    have tr: "trim (unwords (v # rest)) = unwords (v # rest)"
      using tok by (intro trim_unwords) simp_all
    have "serializeCommand p (Some ?c) = Inr (unwords (v # rest) @ CRLF)"
      using vne vp w tr fit ts ct
      by (intro serializeCommand_result [where H = v]) (simp_all add: canonical_line_def)
    then show ?thesis using p ts ct by (simp add: canonical_line_def)
  qed
qed

theorem command_round_trip_witness:
  "well_formed (split_ws (trim ''MAIL   FROM:test@baleen.io  SIZE=1000000 TESTPARAM  '')) \<and>
   (\<exists>c. parseCommandLine new_SMTPCmdLineParser
           ''MAIL   FROM:test@baleen.io  SIZE=1000000 TESTPARAM  '' = Inr c \<and>
        serializeCommand new_SMTPCmdLineParser (Some c) =
          Inr (''MAIL FROM:<test@baleen.io> SIZE=1000000 TESTPARAM'' @ CRLF))"
proof -
  let ?l = "''MAIL   FROM:test@baleen.io  SIZE=1000000 TESTPARAM  ''"
  let ?p = new_SMTPCmdLineParser
  have h: "int (length (trim ?l)) \<le> maxLineLength ?p - 2" "\<not> has_linebreak (trim ?l)"
    "well_formed (split_ws (trim ?l))" "int (length (canonical_line ?l)) \<le> maxLineLength ?p"
    by code_simp+
  have c: "canonical_line ?l = ''MAIL FROM:<test@baleen.io> SIZE=1000000 TESTPARAM'' @ CRLF"
    by code_simp
  show ?thesis using command_round_trip [OF h] h(3) c by simp
qed

text \<open>
  C5 as stated fails at the length limit. A MAIL line of 510 characters whose path has no
  angle brackets is accepted by the parser; the serializer adds the two brackets, the line
  with its CRLF has 514 characters, and the serializer throws.
\<close>

theorem command_round_trip_counterexample:
  "int (length (trim (''MAIL FROM:'' @ replicate 500 (CHR ''a''))))
     \<le> maxLineLength new_SMTPCmdLineParser - 2 \<and>
   well_formed (split_ws (trim (''MAIL FROM:'' @ replicate 500 (CHR ''a'')))) \<and>
   parseCommandLine new_SMTPCmdLineParser (''MAIL FROM:'' @ replicate 500 (CHR ''a'')) =
     Inr \<lparr> verb = ''MAIL'', domain = None, returnPath = Some (replicate 500 (CHR ''a'')),
           forwardPath = None, params = [] \<rparr> \<and>
   serializeCommand new_SMTPCmdLineParser
     (Some \<lparr> verb = ''MAIL'', domain = None, returnPath = Some (replicate 500 (CHR ''a'')),
             forwardPath = None, params = [] \<rparr>) = Inl OversizeError"
  by code_simp

section \<open>Properties of the client session\<close>

lemma session_end_ended: "ended s \<Longrightarrow> session_end g s = s"
  by (simp add: session_end_def)

lemma session_end_sets_ended: "ended (session_end g s)"
  by (simp add: session_end_def try_close_def Let_def)

text \<open>
  C3. \<^verbatim>\<open>end()\<close> on a session that is connected and has not ended: the session is marked
  as ended and the \<^verbatim>\<open>end\<close> event is emitted, but \<^verbatim>\<open>client.close()\<close> is not called. The
  statement before it in the \<^verbatim>\<open>try\<close> block reads the undeclared variable \<^verbatim>\<open>self\<close>, which
  throws under Node.js, and the exception is swallowed. For every session under Node.js,
  \<^verbatim>\<open>end()\<close> changes nothing when the session has ended, and otherwise does no more than
  mark it as ended and emit \<^verbatim>\<open>end\<close>.
\<close>

theorem end_does_not_close_transport:
  "session_end node_globals \<lparr> ended = False, connected = True, state_error = None, log = [] \<rparr>
     = \<lparr> ended = True, connected = True, state_error = None, log = [Emit_end] \<rparr> \<and>
   session_end node_globals s =
     (if ended s then s else s \<lparr> ended := True, log := log s @ [Emit_end] \<rparr>)"
  by (simp add: session_end_def node_globals_def try_close_def Let_def)

subsection \<open>Checkpoints\<close>

lemma calls_append: "calls (a @ b) = calls a @ calls b"
  by (simp add: calls_def)

lemma invokes_append: "invokes (a @ b) = invokes a @ invokes b"
  by (simp add: invokes_def)

lemma invokes_Proceed: "invokes (l @ [Proceed]) = invokes l"
  by (simp add: invokes_def)

lemma calls_map_Invoke: "calls (map Invoke xs) = map Invoke xs"
  by (induction xs) (simp_all add: calls_def)

lemma session_end_calls: "calls (log (session_end g s)) = calls (log s)"
  by (simp add: session_end_def try_close_def Let_def calls_def)

lemma session_abort_calls: "calls (log (session_abort g e s)) = calls (log s)"
  by (simp add: session_abort_def try_close_def Let_def calls_def)

lemma session_end_invokes: "invokes (log (session_end g s)) = invokes (log s)"
  by (simp add: session_end_def try_close_def Let_def invokes_def)

lemma session_abort_invokes: "invokes (log (session_abort g e s)) = invokes (log s)"
  by (simp add: session_abort_def try_close_def Let_def invokes_def)

lemma session_abort_ended: "ended (session_abort g e s)"
  by (simp add: session_abort_def try_close_def Let_def)

lemma session_end_ended': "ended (session_end g s)"
  by (simp add: session_end_def try_close_def Let_def)

lemma quiet_step:
  assumes "quiet ks"
  shows "quiet (step g ks ev) \<and> calls (log (snd (step g ks ev))) = calls (log (snd ks))"
proof (cases ev)
  case (Callback err)
  then show ?thesis
    using assms by (auto simp: quiet_def callback_def Let_def)
next
  case TimerFires
  then show ?thesis using assms by (simp add: quiet_def timer_fires_def Let_def)
next
  case EndCalled
  then show ?thesis
    using assms by (simp add: quiet_def session_end_calls session_end_ended')
qed

lemma quiet_run:
  "quiet ks \<Longrightarrow> calls (log (snd (foldl (step g) ks evs))) = calls (log (snd ks))"
proof (induction evs arbitrary: ks)
  case Nil
  then show ?case by simp
next
  case (Cons ev evs)
  then show ?case using quiet_step [of ks g ev] by simp
qed

lemma ok_callbacks:
  assumes "timer k" and "\<not> ended s" and "j \<le> length (listeners k)"
  shows "foldl (step g) (k, s) (replicate j (Callback None)) =
     (k \<lparr> listeners := drop j (listeners k) \<rparr>,
      s \<lparr> log := log s @ map Invoke (take j (listeners k)) \<rparr>)"
  using assms
proof (induction j arbitrary: k s)
  case 0
  then show ?case by simp
next
  case (Suc j)
  then obtain l r where lr: "listeners k = l # r" by (cases "listeners k") auto
  have st: "step g (k, s) (Callback None) =
      (k \<lparr> listeners := r \<rparr>, s \<lparr> log := log s @ [Invoke l] \<rparr>)"
    using Suc.prems lr by (simp add: callback_def Let_def)
  have "foldl (step g) (k \<lparr> listeners := r \<rparr>, s \<lparr> log := log s @ [Invoke l] \<rparr>)
          (replicate j (Callback None)) =
      (k \<lparr> listeners := r \<rparr> \<lparr> listeners := drop j r \<rparr>,
       s \<lparr> log := log s @ [Invoke l] \<rparr> \<lparr> log := (log s @ [Invoke l]) @ map Invoke (take j r) \<rparr>)"
    using Suc.IH [of "k \<lparr> listeners := r \<rparr>" "s \<lparr> log := log s @ [Invoke l] \<rparr>"] Suc.prems lr
    by simp
  then show ?case using st lr by simp
qed

lemma invoke_order:
  assumes "invokes (log s) = pre @ map Invoke (take j ls)" and "listeners k = drop j ls"
  shows "\<exists>j'. j \<le> j' \<and> j' \<le> j + successes evs \<and>
     invokes (log (snd (foldl (step g) (k, s) evs))) = pre @ map Invoke (take j' ls) \<and>
     listeners (fst (foldl (step g) (k, s) evs)) = drop j' ls"
  using assms
proof (induction evs arbitrary: k s j)
  case Nil
  then show ?case by (auto simp: successes_def)
next
  case (Cons ev evs)
  have "\<exists>j1. j \<le> j1 \<and> j1 \<le> j + successes [ev] \<and>
      invokes (log (snd (step g (k, s) ev))) = pre @ map Invoke (take j1 ls) \<and>
      listeners (fst (step g (k, s) ev)) = drop j1 ls"
  proof (cases "ev = Callback None \<and> timer k \<and> \<not> ended s \<and> listeners k \<noteq> []")
    case True
    then obtain l r where lr: "listeners k = l # r" by (cases "listeners k") auto
    then have d: "drop j ls = l # r" using Cons.prems(2) by simp
    then have jl: "j < length ls" by (metis drop_all list.distinct(1) not_le)
    have t: "take (Suc j) ls = take j ls @ [l]"
      using d jl by (metis Cons_nth_drop_Suc list.inject take_Suc_conv_app_nth)
    have dr: "drop (Suc j) ls = r"
      using d jl by (metis Cons_nth_drop_Suc list.inject)
    have st: "step g (k, s) ev = (k \<lparr> listeners := r \<rparr>, s \<lparr> log := log s @ [Invoke l] \<rparr>)"
      using True lr by (simp add: callback_def Let_def)
    have "successes [ev] = 1" using True by (simp add: successes_def)
    then show ?thesis
      using st t dr Cons.prems(1) by (intro exI [of _ "Suc j"]) (simp add: invokes_append invokes_def)
  next
    case False
    have "invokes (log (snd (step g (k, s) ev))) = invokes (log s) \<and>
        listeners (fst (step g (k, s) ev)) = listeners k"
    proof (cases ev)
      case (Callback err)
      then show ?thesis
        using False
        by (cases err; cases "listeners k")
           (auto simp: callback_def Let_def session_abort_invokes invokes_Proceed)
    next
      case TimerFires
      then show ?thesis by (simp add: timer_fires_def Let_def session_abort_invokes)
    next
      case EndCalled
      then show ?thesis by (simp add: session_end_invokes)
    qed
    then show ?thesis using Cons.prems by (intro exI [of _ j]) simp
  qed
  then obtain j1 where j1: "j \<le> j1" "j1 \<le> j + successes [ev]"
    "invokes (log (snd (step g (k, s) ev))) = pre @ map Invoke (take j1 ls)"
    "listeners (fst (step g (k, s) ev)) = drop j1 ls"
    by blast
  obtain k1 s1 where ks1: "step g (k, s) ev = (k1, s1)" by (cases "step g (k, s) ev")
  have "\<exists>j'. j1 \<le> j' \<and> j' \<le> j1 + successes evs \<and>
     invokes (log (snd (foldl (step g) (k1, s1) evs))) = pre @ map Invoke (take j' ls) \<and>
     listeners (fst (foldl (step g) (k1, s1) evs)) = drop j' ls"
    using Cons.IH [of s1 j1 k1] j1 ks1 by simp
  then obtain j' where j': "j1 \<le> j'" "j' \<le> j1 + successes evs"
     "invokes (log (snd (foldl (step g) (k1, s1) evs))) = pre @ map Invoke (take j' ls)"
     "listeners (fst (foldl (step g) (k1, s1) evs)) = drop j' ls"
    by blast
  have "successes (ev # evs) = successes [ev] + successes evs" by (simp add: successes_def)
  then show ?case using j1 j' ks1 by (intro exI [of _ j']) simp
qed

lemma frozen_step:
  assumes "ended (snd ks)" and "\<not> armed (fst ks)"
  shows "snd (step g ks ev) = snd ks \<and> \<not> armed (fst (step g ks ev))"
proof (cases ev)
  case (Callback err)
  then show ?thesis using assms by (simp add: callback_def Let_def)
next
  case TimerFires
  then show ?thesis using assms by (simp add: timer_fires_def Let_def)
next
  case EndCalled
  then show ?thesis using assms by (simp add: session_end_def)
qed

lemma frozen_run:
  "ended (snd ks) \<Longrightarrow> \<not> armed (fst ks) \<Longrightarrow> snd (foldl (step g) ks evs) = snd ks"
proof (induction evs arbitrary: ks)
  case Nil
  then show ?case by simp
next
  case (Cons ev evs)
  then show ?case using frozen_step [of ks g ev] by simp
qed

lemma run_all_ok:
  assumes "\<not> ended s"
  shows "calls (log (snd (run_checkpoint g ls s (replicate (length ls) (Callback None) @ evs)))) =
     calls (log s) @ map Invoke ls @ [Proceed]"
proof (cases ls)
  case Nil
  have "quiet (emit_checkpoint [] s)" by (simp add: quiet_def emit_checkpoint_def)
  then show ?thesis
    using quiet_run [of "emit_checkpoint [] s" g evs] Nil
    by (simp add: run_checkpoint_def) (simp add: emit_checkpoint_def calls_def)
next
  case (Cons l r)
  let ?k = "\<lparr> listeners = r, timer = True, armed = True \<rparr>"
  let ?s = "s \<lparr> log := log s @ [Invoke l] \<rparr>"
  let ?k1 = "?k \<lparr> listeners := drop (length r) (listeners ?k) \<rparr>"
  let ?s1 = "?s \<lparr> log := log ?s @ map Invoke (take (length r) (listeners ?k)) \<rparr>"
  have a: "foldl (step g) (?k, ?s) (replicate (length r) (Callback None)) = (?k1, ?s1)"
    using ok_callbacks [of ?k ?s "length r" g] assms by simp
  let ?k2 = "?k1 \<lparr> timer := False, armed := False \<rparr>"
  let ?s2 = "?s1 \<lparr> log := log ?s1 @ [Proceed] \<rparr>"
  have b: "step g (?k1, ?s1) (Callback None) = (?k2, ?s2)"
    using assms by (simp add: callback_def Let_def)
  have q: "quiet (?k2, ?s2)" by (simp add: quiet_def)
  have "replicate (length ls) (Callback None) @ evs =
      replicate (length r) (Callback None) @ Callback None # evs"
    using Cons by (simp add: replicate_append_same)
  then have "run_checkpoint g ls s (replicate (length ls) (Callback None) @ evs) =
      foldl (step g) (?k2, ?s2) evs"
    using Cons a b by (simp add: run_checkpoint_def emit_checkpoint_def)
  then have "calls (log (snd (run_checkpoint g ls s (replicate (length ls) (Callback None) @ evs)))) =
      calls (log ?s2)"
    using quiet_run [OF q, of g evs] by simp
  also have "\<dots> = calls (log s) @ map Invoke ls @ [Proceed]"
    using Cons by (simp add: calls_append calls_map_Invoke) (simp add: calls_def)
  finally show ?thesis .
qed

lemma run_veto:
  assumes "\<not> ended s" and "n < length ls"
  shows "snd (run_checkpoint g ls s (replicate n (Callback None) @ Callback (Some e) # evs)) =
     session_abort g (Some (Veto e)) (s \<lparr> log := log s @ map Invoke (take (Suc n) ls) \<rparr>)"
proof -
  obtain l r where lr: "ls = l # r" using assms(2) by (cases ls) auto
  let ?k = "\<lparr> listeners = r, timer = True, armed = True \<rparr>"
  let ?s = "s \<lparr> log := log s @ [Invoke l] \<rparr>"
  let ?k1 = "?k \<lparr> listeners := drop n (listeners ?k) \<rparr>"
  let ?s1 = "?s \<lparr> log := log ?s @ map Invoke (take n (listeners ?k)) \<rparr>"
  have a: "foldl (step g) (?k, ?s) (replicate n (Callback None)) = (?k1, ?s1)"
    using ok_callbacks [of ?k ?s n g] assms lr by simp
  let ?k2 = "?k1 \<lparr> armed := False \<rparr>"
  let ?s2 = "session_abort g (Some (Veto e)) ?s1"
  have b: "step g (?k1, ?s1) (Callback (Some e)) = (?k2, ?s2)"
    using assms by (simp add: callback_def Let_def)
  have "run_checkpoint g ls s (replicate n (Callback None) @ Callback (Some e) # evs) =
      foldl (step g) (?k2, ?s2) evs"
    using lr a b by (simp add: run_checkpoint_def emit_checkpoint_def)
  then have "snd (run_checkpoint g ls s (replicate n (Callback None) @ Callback (Some e) # evs)) = ?s2"
    using frozen_run [of "(?k2, ?s2)" g evs] by (simp add: session_abort_ended)
  moreover have "?s1 = s \<lparr> log := log s @ map Invoke (take (Suc n) ls) \<rparr>"
    using lr by simp
  ultimately show ?thesis by simp
qed

lemma run_invoke_order:
  "\<exists>j\<le>1 + successes evs.
     invokes (log (snd (run_checkpoint g ls s evs))) = invokes (log s) @ map Invoke (take j ls)"
proof (cases ls)
  case Nil
  have "invokes (log (snd (emit_checkpoint [] s))) = invokes (log s) @ map Invoke (take 0 [])"
    by (simp add: emit_checkpoint_def invokes_Proceed)
  moreover have "listeners (fst (emit_checkpoint [] s)) = drop 0 []"
    by (simp add: emit_checkpoint_def)
  ultimately obtain j' where "j' \<le> 0 + successes evs"
    "invokes (log (snd (foldl (step g) (emit_checkpoint [] s) evs))) =
       invokes (log s) @ map Invoke (take j' [])"
    using invoke_order [of "snd (emit_checkpoint [] s)" "invokes (log s)" 0 "[]"
        "fst (emit_checkpoint [] s)" evs g]
    by auto
  then show ?thesis using Nil by (intro exI [of _ j']) (simp add: run_checkpoint_def)
next
  case (Cons l r)
  have "invokes (log (snd (emit_checkpoint ls s))) = invokes (log s) @ map Invoke (take 1 ls)"
    using Cons by (simp add: emit_checkpoint_def invokes_append) (simp add: invokes_def)
  moreover have "listeners (fst (emit_checkpoint ls s)) = drop 1 ls"
    using Cons by (simp add: emit_checkpoint_def)
  ultimately obtain j' where "j' \<le> 1 + successes evs"
    "invokes (log (snd (foldl (step g) (emit_checkpoint ls s) evs))) =
       invokes (log s) @ map Invoke (take j' ls)"
    using invoke_order [of "snd (emit_checkpoint ls s)" "invokes (log s)" 1 ls
        "fst (emit_checkpoint ls s)" evs g]
    by auto
  then show ?thesis by (intro exI [of _ j']) (simp add: run_checkpoint_def)
qed

text \<open>
  C2, as the code has it, for a session that has not ended when the checkpoint is emitted
  and any events \<open>evs\<close> that follow. Without listeners the continuation is called at once.
  With listeners, when the callback is called without an error once per listener before
  the timeout elapses and before the session is ended, the listeners are called in the
  order of registration and then the continuation, once; nothing that follows calls a
  listener or the continuation again. When, after \<open>n\<close> such calls, the callback is called
  with an error, the session is aborted with the veto as cause and stays so: no further
  listener and no continuation is called. In every run the listeners called are a prefix
  of the registered ones, and every listener but the first is called by a call of the
  callback without an error.
\<close>

theorem checkpoint_protocol:
  assumes "\<not> ended s" and "n < length ls"
  shows "snd (emit_checkpoint [] s) = s \<lparr> log := log s @ [Proceed] \<rparr> \<and>
     calls (log (snd (run_checkpoint g ls s (replicate (length ls) (Callback None) @ evs)))) =
       calls (log s) @ map Invoke ls @ [Proceed] \<and>
     snd (run_checkpoint g ls s (replicate n (Callback None) @ Callback (Some e) # evs)) =
       session_abort g (Some (Veto e)) (s \<lparr> log := log s @ map Invoke (take (Suc n) ls) \<rparr>) \<and>
     (\<exists>j\<le>1 + successes evs.
        invokes (log (snd (run_checkpoint g ls s evs))) = invokes (log s) @ map Invoke (take j ls))"
  using run_all_ok [OF assms(1)] run_veto [OF assms] run_invoke_order
  by (simp add: emit_checkpoint_def)

theorem checkpoint_protocol_witness:
  "calls (log (snd (run_checkpoint node_globals [0, 1, 2, 3, 4] fresh_session
      [Callback None, Callback None, Callback None, Callback None, Callback None,
       Callback None, TimerFires]))) =
     [Invoke 0, Invoke 1, Invoke 2, Invoke 3, Invoke 4, Proceed] \<and>
   snd (run_checkpoint node_globals [0, 1, 2, 3, 4] fresh_session
      [Callback None, Callback None, Callback (Some ''veto''), Callback None, TimerFires]) =
     \<lparr> ended = True, connected = False, state_error = Some (Veto ''veto''),
       log = [Invoke 0, Invoke 1, Invoke 2, Emit_error (Some (Veto ''veto''))] \<rparr>"
proof -
  have h: "\<not> ended fresh_session" "(2::nat) < length [0::nat, 1, 2, 3, 4]"
    by (simp_all add: fresh_session_def)
  have c: "calls (log fresh_session) = []" by (simp add: fresh_session_def calls_def)
  have a: "session_abort node_globals (Some (Veto ''veto''))
      (fresh_session \<lparr> log := log fresh_session @ map Invoke (take (Suc 2) [0, 1, 2, 3, 4]) \<rparr>) =
     \<lparr> ended = True, connected = False, state_error = Some (Veto ''veto''),
       log = [Invoke 0, Invoke 1, Invoke 2, Emit_error (Some (Veto ''veto''))] \<rparr>"
    by (simp add: session_abort_def fresh_session_def Let_def)
  show ?thesis
    using checkpoint_protocol [OF h, of node_globals "[Callback None, TimerFires]" "''veto''"] c a
    by (simp add: numeral_2_eq_2)
qed

text \<open>
  C2 as stated fails when the timeout elapses first: the only listener then calls back
  without an error, and the continuation is not called; the session has been aborted.
\<close>

theorem checkpoint_timeout_counterexample:
  "log (snd (run_checkpoint node_globals [0] fresh_session [TimerFires, Callback None])) =
     [Invoke 0, Emit_error (Some VetoExpired)]"
  by (simp add: run_checkpoint_def emit_checkpoint_def fresh_session_def timer_fires_def
      callback_def session_abort_def Let_def)

section \<open>Properties of the reply parser\<close>

lemma parseReplyLine_no_overhead: "parseReplyLine p x \<noteq> Inl TrailingOverheadError"
  by (simp add: parseReplyLine_def Let_def split: option.splits prod.splits)

lemma reduce_reply_no_overhead: "reduce_reply memo idx n ls \<noteq> Inl TrailingOverheadError"
  by (induction ls arbitrary: memo idx) (simp_all add: Let_def)

lemma parseReply_no_overhead: "parseReply ls \<noteq> Inl TrailingOverheadError"
  by (simp add: parseReply_def reduce_reply_no_overhead)

lemma onData_loop_no_overhead:
  "onData_loop p st chunk \<noteq> Settled (Inl TrailingOverheadError)"
proof (induction chunk arbitrary: st)
  case Nil
  then show ?case by simp
next
  case (Cons c chunk)
  then show ?case
    by (auto simp: Let_def parseReplyLine_no_overhead parseReply_no_overhead split: sum.splits)
qed

text \<open>
  C4. A chunk that holds the last line of a reply and one more byte: the listener throws
  the error. The promise is not settled by this chunk, neither resolved nor rejected; and
  no chunk in any state settles the promise with \<open>TrailingOverheadError\<close>.
\<close>

theorem trailing_overhead_is_thrown:
  "onData new_SMTPReplyParser parse_init (''250 OK'' @ CRLF @ ''X'') =
     Thrown TrailingOverheadError
       \<lparr> currentLine = ''250 OK'' @ CRLF,
         replyLines = [\<lparr> line_code = 250, isLast = True, line_message = ''OK'' \<rparr>] \<rparr> \<and>
   onData p st chunk \<noteq> Settled (Inl TrailingOverheadError)"
proof
  show "onData new_SMTPReplyParser parse_init (''250 OK'' @ CRLF @ ''X'') =
     Thrown TrailingOverheadError
       \<lparr> currentLine = ''250 OK'' @ CRLF,
         replyLines = [\<lparr> line_code = 250, isLast = True, line_message = ''OK'' \<rparr>] \<rparr>"
    by (simp add: onData_def CRLF_def new_SMTPReplyParser_def parse_init_def parseReplyLine_def
        trimRight_def is_space_def has_linebreak_def is_digit_def parseInt3_def digit_value_def)
  show "onData p st chunk \<noteq> Settled (Inl TrailingOverheadError)"
    by (simp add: onData_def onData_loop_no_overhead)
qed

lemma reduce_reply_tail:
  assumes "0 < idx" and "idx + length ls = n"
    and "\<forall>l\<in>set (butlast ls). \<not> isLast l" and "ls \<noteq> [] \<longrightarrow> isLast (last ls)"
  shows "reduce_reply memo idx n ls =
     Inr (if ls = [] then memo
          else memo \<lparr> code := Some (line_code (last ls)),
                       lines := Some ((case lines memo of None \<Rightarrow> [] | Some xs \<Rightarrow> xs)
                                      @ map line_message ls) \<rparr>)"
  using assms
proof (induction ls arbitrary: memo idx)
  case Nil
  then show ?case by simp
next
  case (Cons l ls)
  show ?case
  proof (cases "ls = []")
    case True
    then have "isLast l" "int idx = int n - 1" using Cons.prems by auto
    then show ?thesis using True Cons.prems(1) by (simp add: Let_def)
  next
    case False
    then have nl: "\<not> isLast l" and ne: "int idx \<noteq> int n - 1"
      using Cons.prems by (auto simp: neq_Nil_conv)
    have ih: "reduce_reply m (Suc idx) n ls =
        Inr (m \<lparr> code := Some (line_code (last ls)),
                  lines := Some ((case lines m of None \<Rightarrow> [] | Some xs \<Rightarrow> xs)
                                 @ map line_message ls) \<rparr>)" for m
      using Cons.IH [of "Suc idx" m] Cons.prems False by simp
    show ?thesis
      using nl ne False Cons.prems(1) by (simp add: Let_def ih)
  qed
qed

lemma parseReply_consistent:
  assumes "xs \<noteq> []" and "\<forall>l\<in>set (butlast xs). \<not> isLast l" and "isLast (last xs)"
  shows "parseReply xs =
     Inr \<lparr> code = Some (line_code (last xs)), message = Some (line_message (hd xs)),
           lines = Some (map line_message xs) \<rparr>"
proof -
  obtain l ls where x: "xs = l # ls" using assms(1) by (cases xs) auto
  show ?thesis
  proof (cases "ls = []")
    case True
    then show ?thesis using x assms by (simp add: parseReply_def empty_reply_def Let_def)
  next
    case False
    then have nl: "\<not> isLast l" using assms(2) x by simp
    have t: "reduce_reply m (Suc 0) (Suc (length ls)) ls =
        Inr (m \<lparr> code := Some (line_code (last ls)),
                  lines := Some ((case lines m of None \<Rightarrow> [] | Some xs \<Rightarrow> xs)
                                 @ map line_message ls) \<rparr>)" for m
      using reduce_reply_tail [of "Suc 0" ls "Suc (length ls)" m] assms x False by simp
    show ?thesis using x nl False by (simp add: parseReply_def empty_reply_def Let_def t)
  qed
qed

lemma render_lines_fit:
  assumes "idx + length ls = n"
    and "\<forall>l\<in>set ls. int (length (wire_line c True (trim l))) \<le> maxLineLength p"
  shows "render_lines p c n memo idx ls =
     Inr (memo @ concat (map (\<lambda>l. wire_line c False (trim l)) (butlast ls))
          @ (if ls = [] then [] else wire_line c True (trim (last ls))))"
  using assms
proof (induction ls arbitrary: memo idx)
  case Nil
  then show ?case by simp
next
  case (Cons l ls)
  have len: "length (wire_line c False (trim l)) = length (wire_line c True (trim l))"
    by (simp add: wire_line_def)
  have fit: "\<not> int (length (wire_line c b (trim l))) > maxLineLength p" for b
    using Cons.prems(2) len by (cases b) auto
  show ?case
  proof (cases "ls = []")
    case True
    then have "int idx = int n - 1" using Cons.prems by auto
    then show ?thesis using True fit [of True] by (simp add: Let_def wire_line_def)
  next
    case False
    then have ne: "int idx \<noteq> int n - 1" using Cons.prems by (auto simp: neq_Nil_conv)
    show ?thesis
      using ne False fit [of False] Cons.IH [of "Suc idx"] Cons.prems
      by (simp add: Let_def wire_line_def)
  qed
qed

lemma wire_lines_split:
  assumes "xs \<noteq> []" and "\<forall>l\<in>set (butlast xs). \<not> isLast l" and "isLast (last xs)"
  shows "concat (map (\<lambda>l. wire_line c (isLast l) (trim (line_message l))) xs) =
     concat (map (\<lambda>m. wire_line c False (trim m)) (butlast (map line_message xs)))
     @ wire_line c True (trim (last (map line_message xs)))"
proof -
  have "xs = butlast xs @ [last xs]" using assms(1) by simp
  then have "concat (map (\<lambda>l. wire_line c (isLast l) (trim (line_message l))) xs) =
      concat (map (\<lambda>l. wire_line c (isLast l) (trim (line_message l))) (butlast xs))
      @ wire_line c (isLast (last xs)) (trim (line_message (last xs)))"
    by (metis (no_types, lifting) concat.simps(1) concat.simps(2) concat_append list.simps(8)
        list.simps(9) map_append self_append_conv)
  moreover have "map (\<lambda>l. wire_line c (isLast l) (trim (line_message l))) (butlast xs) =
      map (\<lambda>m. wire_line c False (trim m)) (butlast (map line_message xs))"
    using assms(2) by (simp add: map_butlast [symmetric])
  moreover have "line_message (last xs) = last (map line_message xs)"
    using assms(1) by (simp add: last_map)
  ultimately show ?thesis using assms(3) by simp
qed

text \<open>
  C7, as the code has it. For a consistent sequence of reply lines with a non-zero code,
  \<open>parseReply\<close> succeeds; the reply has the messages of the lines in order as its lines and
  the message of the first line as its message. Where every rendered line fits into
  \<open>maxLineLength\<close>, serializing that reply renders one line per input line, with \<^verbatim>\<open>-\<close>
  after the code on all lines but the last and a space on the last, and with the message
  trimmed of white space at both ends.
\<close>

theorem reply_round_trip:
  assumes "consistent_reply c xs" and "c \<noteq> 0"
    and "\<forall>l\<in>set xs. int (length (wire_line c True (trim (line_message l)))) \<le> maxLineLength p"
  shows "parseReply xs =
       Inr \<lparr> code = Some c, message = Some (line_message (hd xs)),
             lines = Some (map line_message xs) \<rparr> \<and>
     fst (serializeReply p
            (Some \<lparr> code = Some c, message = Some (line_message (hd xs)),
                    lines = Some (map line_message xs) \<rparr>)) =
       Inr (concat (map (\<lambda>l. wire_line c (isLast l) (trim (line_message l))) xs))"
proof
  have ne: "xs \<noteq> []" and nl: "\<forall>l\<in>set (butlast xs). \<not> isLast l" and la: "isLast (last xs)"
    and co: "line_code (last xs) = c"
    using assms(1) by (auto simp: consistent_reply_def)
  show "parseReply xs =
      Inr \<lparr> code = Some c, message = Some (line_message (hd xs)),
            lines = Some (map line_message xs) \<rparr>"
    using parseReply_consistent [OF ne nl la] co by simp
  let ?ms = "map line_message xs"
  have af: "assign_first ?ms (line_message (hd xs)) = ?ms"
    using ne by (cases xs) auto
  have fit: "\<forall>m\<in>set ?ms. int (length (wire_line c True (trim m))) \<le> maxLineLength p"
    using assms(3) by simp
  have r: "render_lines p c (length ?ms) [] 0 ?ms =
      Inr (concat (map (\<lambda>l. wire_line c (isLast l) (trim (line_message l))) xs))"
    using render_lines_fit [of 0 ?ms "length ?ms" c p "[]"] fit ne
      wire_lines_split [OF ne nl la, of c] by simp
  show "fst (serializeReply p
            (Some \<lparr> code = Some c, message = Some (line_message (hd xs)),
                    lines = Some ?ms \<rparr>)) =
       Inr (concat (map (\<lambda>l. wire_line c (isLast l) (trim (line_message l))) xs))"
    using assms(2) ne af r by (simp add: serializeReply_def Let_def falsy_def)
qed

theorem reply_round_trip_witness:
  "consistent_reply 250
     [\<lparr> line_code = 250, isLast = False, line_message = ''BEGIN'' \<rparr>,
      \<lparr> line_code = 250, isLast = True, line_message = ''END'' \<rparr>] \<and>
   parseReply
     [\<lparr> line_code = 250, isLast = False, line_message = ''BEGIN'' \<rparr>,
      \<lparr> line_code = 250, isLast = True, line_message = ''END'' \<rparr>] =
     Inr \<lparr> code = Some 250, message = Some ''BEGIN'', lines = Some [''BEGIN'', ''END''] \<rparr> \<and>
   fst (serializeReply new_SMTPReplyParser
          (Some \<lparr> code = Some 250, message = Some ''BEGIN'', lines = Some [''BEGIN'', ''END''] \<rparr>)) =
     Inr (''250-BEGIN'' @ CRLF @ ''250 END'' @ CRLF)"
proof -
  let ?xs = "[\<lparr> line_code = 250, isLast = False, line_message = ''BEGIN'' \<rparr>,
      \<lparr> line_code = 250, isLast = True, line_message = ''END'' \<rparr>]"
  have c: "consistent_reply 250 ?xs" by (simp add: consistent_reply_def)
  have z: "(250::int) \<noteq> 0" by simp
  have f: "\<forall>l\<in>set ?xs. int (length (wire_line 250 True (trim (line_message l))))
      \<le> maxLineLength new_SMTPReplyParser"
    by code_simp
  have w: "concat (map (\<lambda>l. wire_line 250 (isLast l) (trim (line_message l))) ?xs) =
      ''250-BEGIN'' @ CRLF @ ''250 END'' @ CRLF"
    by code_simp
  show ?thesis using reply_round_trip [OF c z f] c w by simp
qed

text \<open>
  C7 as stated fails. A single final line whose message has 507 characters is consistent
  and parses, but its rendering has 513 characters and the serializer throws. A message
  with leading white space is rendered without it, which is not the line that was parsed.
\<close>

theorem reply_round_trip_counterexample:
  "consistent_reply 250
     [\<lparr> line_code = 250, isLast = True, line_message = replicate 507 (CHR ''a'') \<rparr>] \<and>
   parseReply [\<lparr> line_code = 250, isLast = True, line_message = replicate 507 (CHR ''a'') \<rparr>] =
     Inr \<lparr> code = Some 250, message = Some (replicate 507 (CHR ''a'')),
           lines = Some [replicate 507 (CHR ''a'')] \<rparr> \<and>
   fst (serializeReply new_SMTPReplyParser
          (Some \<lparr> code = Some 250, message = Some (replicate 507 (CHR ''a'')),
                  lines = Some [replicate 507 (CHR ''a'')] \<rparr>)) = Inl OversizeError \<and>
   consistent_reply 250 [\<lparr> line_code = 250, isLast = True, line_message = '' a'' \<rparr>] \<and>
   parseReply [\<lparr> line_code = 250, isLast = True, line_message = '' a'' \<rparr>] =
     Inr \<lparr> code = Some 250, message = Some '' a'', lines = Some ['' a''] \<rparr> \<and>
   fst (serializeReply new_SMTPReplyParser
          (Some \<lparr> code = Some 250, message = Some '' a'', lines = Some ['' a''] \<rparr>)) =
     Inr (''250 a'' @ CRLF) \<and>
   wire_lines [\<lparr> line_code = 250, isLast = True, line_message = '' a'' \<rparr>] = ''250  a'' @ CRLF"
  by code_simp

text \<open>
  C9, as the code has it. When both the code and the message of the reply object are set,
  the call leaves the object with its first line replaced by the message (a missing or
  empty \<^verbatim>\<open>lines\<close> array becomes the one-element array of the message), whatever the result
  of the serialization is.
\<close>

theorem serializeReply_assigns_first_line:
  assumes "code reply = Some c" and "c \<noteq> 0" and "message reply = Some m" and "m \<noteq> []"
  shows "snd (serializeReply p (Some reply)) =
     Some (reply \<lparr> lines := Some (assign_first (case lines reply of None \<Rightarrow> [] | Some xs \<Rightarrow> xs) m) \<rparr>)"
  using assms by (simp add: serializeReply_def Let_def falsy_def)

theorem serializeReply_assigns_first_line_witness:
  "snd (serializeReply new_SMTPReplyParser
          (Some \<lparr> code = Some 250, message = Some ''BEGIN'', lines = Some [''ERROR'', ''END''] \<rparr>)) =
     Some \<lparr> code = Some 250, message = Some ''BEGIN'', lines = Some [''BEGIN'', ''END''] \<rparr> \<and>
   snd (serializeReply new_SMTPReplyParser
          (Some \<lparr> code = Some 250, message = Some ''OK'', lines = None \<rparr>)) =
     Some \<lparr> code = Some 250, message = Some ''OK'', lines = Some [''OK''] \<rparr>"
  using serializeReply_assigns_first_line
      [of "\<lparr> code = Some 250, message = Some ''BEGIN'', lines = Some [''ERROR'', ''END''] \<rparr>"
          250 "''BEGIN''" new_SMTPReplyParser]
    serializeReply_assigns_first_line
      [of "\<lparr> code = Some 250, message = Some ''OK'', lines = None \<rparr>" 250 "''OK''"
          new_SMTPReplyParser]
  by simp

text \<open>
  C9 as stated fails for a reply object with a message and no code: the call throws before
  it reaches the assignment and the object is as it was.
\<close>

theorem serializeReply_without_code_counterexample:
  "serializeReply new_SMTPReplyParser (Some \<lparr> code = None, message = Some ''OK'', lines = None \<rparr>) =
     (Inl MissingCodeError, Some \<lparr> code = None, message = Some ''OK'', lines = None \<rparr>)"
  by (simp add: serializeReply_def)

section \<open>Properties of the dot-transparency codec\<close>

lemma dec_loop_inv: "dec_inv s \<Longrightarrow> dec_ok (dec_loop s lastc cs)"
proof (induction cs arbitrary: s lastc)
  case Nil
  then show ?case by simp
next
  case (Cons c cs)
  then show ?case
    by (auto simp: Let_def dec_inv_def dec_push_def intro!: Cons.IH)
qed

lemma decode_chunks_inv:
  "dec_inv s \<Longrightarrow> decode_chunks s chunks \<noteq> Inl OversizeError"
proof (induction chunks arbitrary: s)
  case Nil
  then show ?case by simp
next
  case (Cons chunk chunks)
  have ok: "dec_ok (DotDecoder_transform s chunk)"
    unfolding DotDecoder_transform_def using Cons.prems by (rule dec_loop_inv)
  show ?case
  proof (cases "DotDecoder_transform s chunk")
    case (Inl e)
    then show ?thesis using ok by simp
  next
    case (Inr s')
    then have "dec_inv s'" using ok by simp
    then show ?thesis using Inr Cons.IH by simp
  qed
qed

lemma decode_never_oversize: "decode r chunks \<noteq> Inl OversizeError"
proof -
  have "dec_inv (new_DotDecoder r)" by (simp add: dec_inv_def new_DotDecoder_def)
  then have "decode_chunks (new_DotDecoder r) chunks \<noteq> Inl OversizeError"
    by (rule decode_chunks_inv)
  then show ?thesis by (auto simp: decode_def split: sum.splits)
qed

lemma dec_loop_overflow:
  assumes "LF \<notin> set cs" and "0 \<le> dec_bufferSize s"
    and "dec_bufferSize s \<le> int (length (dec_buffer s))"
    and "int (length (dec_buffer s)) \<le> dec_maxLineLength s"
    and "dec_bufferSize s + int (length cs) > int (length (dec_buffer s))"
  shows "dec_loop s lastc cs = Inl RangeError"
  using assms
proof (induction cs arbitrary: s lastc)
  case Nil
  then show ?case by simp
next
  case (Cons c cs)
  show ?case
  proof (cases "dec_bufferSize s \<ge> int (length (dec_buffer s))")
    case True
    then show ?thesis using Cons.prems by simp
  next
    case False
    let ?s1 = "s \<lparr> dec_buffer := (dec_buffer s)[nat (dec_bufferSize s) := c],
                      dec_bufferSize := dec_bufferSize s + 1 \<rparr>"
    have "dec_loop ?s1 c cs = Inl RangeError"
      using Cons.IH [of ?s1 c] Cons.prems False by simp
    moreover have "c \<noteq> LF" using Cons.prems(1) by auto
    ultimately show ?thesis using Cons.prems False by (simp add: Let_def)
  qed
qed

text \<open>
  C8. A line of 1001 bytes without a line break makes a new decoder fail with the
  \<open>RangeError\<close> of the buffer write at offset 1000. The decoder's own check compares with
  \<^verbatim>\<open>>\<close>, so it would need 1001 bytes in a buffer of 1000: no input at all makes the decoder
  fail with \<open>OversizeError\<close>. Both hold whatever the consumer of the decoder's output does.
\<close>

theorem long_line_raises_range_error:
  "decode r [replicate 1001 0x61] = Inl RangeError \<and> decode r chunks \<noteq> Inl OversizeError"
proof
  have "dec_loop (new_DotDecoder r) lastc (replicate 1001 0x61) = Inl RangeError" for lastc
    by (rule dec_loop_overflow) (simp_all add: new_DotDecoder_def LF_def)
  then show "decode r [replicate 1001 0x61] = Inl RangeError"
    by (simp add: decode_def DotDecoder_transform_def new_DotDecoder_def)
  show "decode r chunks \<noteq> Inl OversizeError" by (rule decode_never_oversize)
qed

subsection \<open>The encoder as a function of its input stream\<close>

lemma bytes_distinct:
  "CR \<noteq> LF" "LF \<noteq> CR" "DOT \<noteq> CR" "CR \<noteq> DOT" "DOT \<noteq> LF" "LF \<noteq> DOT"
  "CR \<noteq> 0" "LF \<noteq> 0" "DOT \<noteq> 0" "0 \<noteq> CR" "0 \<noteq> LF" "0 \<noteq> DOT"
  by (simp_all add: CR_def LF_def DOT_def)

lemma lastChar_write2Buffer: "lastChar (write2Buffer s c) = c"
  by (simp add: write2Buffer_def enc_push_def Let_def)

lemma enc_loop_step:
  "enc_loop s (c # cs) = enc_loop (foldl write2Buffer s (enc_char (lastChar s) c)) cs"
proof (cases "lastChar s = CR \<and> c \<noteq> LF")
  case True
  then have "enc_loop s (c # cs) = enc_loop (write2Buffer s LF) (c # cs)"
    by (subst enc_loop.simps) (simp add: Let_def bytes_distinct)
  also have "\<dots> = enc_loop (foldl write2Buffer (write2Buffer s LF) (if c = DOT then [DOT, c] else [c])) cs"
    using True
    by (subst enc_loop.simps) (simp add: Let_def bytes_distinct lastChar_write2Buffer)
  finally show ?thesis using True by (simp add: enc_char_def enc_prefix_def)
next
  case False
  then show ?thesis
    by (subst enc_loop.simps)
       (auto simp: Let_def bytes_distinct lastChar_write2Buffer enc_char_def enc_prefix_def)
qed

lemma slice_whole: "slice b 0 (int (length b)) = b"
  by (simp add: slice_def)

lemma write2Buffer_out:
  assumes "enc_live s"
  shows "enc_out (write2Buffer s c) = enc_out s @ [c] \<and> enc_live (write2Buffer s c)"
proof -
  let ?n = "enc_bufferSize s"
  let ?b = "(enc_buffer s)[?n := c]"
  have n: "?n < length (enc_buffer s)" and l: "reader (enc_consumer s) = AtPush" "held (enc_consumer s) = []"
    using assms by (simp_all add: enc_live_def live_def)
  have t: "take (Suc ?n) ?b = take ?n (enc_buffer s) @ [c]"
    using n by (simp add: take_Suc_conv_app_nth)
  show ?thesis
  proof (cases "Suc ?n = length (enc_buffer s)")
    case True
    then have "?b = take ?n (enc_buffer s) @ [c]" using t by (metis length_list_update take_all order_refl)
    moreover have "enc_buffer s \<noteq> []" using n by auto
    moreover have "slice ?b 0 (int (length (enc_buffer s))) = ?b"
      using slice_whole [of ?b] by simp
    ultimately show ?thesis using True l
      by (simp add: write2Buffer_def Let_def enc_out_def enc_live_def live_def enc_push_def push_def)
  next
    case False
    then show ?thesis using n l t
      by (simp add: write2Buffer_def Let_def enc_out_def enc_live_def live_def)
  qed
qed

lemma writes_out:
  "enc_live s \<Longrightarrow>
   enc_out (foldl write2Buffer s bs) = enc_out s @ bs \<and>
   enc_live (foldl write2Buffer s bs) \<and>
   lastChar (foldl write2Buffer s bs) = last (lastChar s # bs)"
proof (induction bs arbitrary: s)
  case Nil
  then show ?case by simp
next
  case (Cons b bs)
  then show ?case
    using write2Buffer_out [of s b] Cons.IH [of "write2Buffer s b"]
    by (simp add: lastChar_write2Buffer)
qed

lemma last_enc_char: "enc_char lc c \<noteq> [] \<and> last (enc_char lc c) = c"
  by (simp add: enc_char_def)

lemma enc_loop_out:
  "enc_live s \<Longrightarrow>
   enc_out (enc_loop s cs) = enc_out s @ enc_stream (lastChar s) cs \<and>
   enc_live (enc_loop s cs) \<and>
   lastChar (enc_loop s cs) = last (lastChar s # cs)"
proof (induction cs arbitrary: s)
  case Nil
  then show ?case by (simp add: enc_loop.simps)
next
  case (Cons c cs)
  let ?s = "foldl write2Buffer s (enc_char (lastChar s) c)"
  have w: "enc_out ?s = enc_out s @ enc_char (lastChar s) c"
    "enc_live ?s" "lastChar ?s = c"
    using writes_out [OF Cons.prems, of "enc_char (lastChar s) c"] last_enc_char [of "lastChar s" c]
    by simp_all
  show ?case
    using Cons.IH [OF w(2)] w by (simp add: enc_loop_step)
qed

lemma enc_stream_append:
  "enc_stream lc (a @ b) = enc_stream lc a @ enc_stream (last (lc # a)) b"
  by (induction a arbitrary: lc) simp_all

lemma transform_chunks_out:
  "enc_live s \<Longrightarrow>
   enc_out (foldl DotEncoder_transform s chunks) = enc_out s @ enc_stream (lastChar s) (concat chunks) \<and>
   enc_live (foldl DotEncoder_transform s chunks) \<and>
   lastChar (foldl DotEncoder_transform s chunks) = last (lastChar s # concat chunks)"
proof (induction chunks arbitrary: s)
  case Nil
  then show ?case by simp
next
  case (Cons ch chunks)
  let ?s = "DotEncoder_transform s ch"
  have a: "enc_out ?s = enc_out s @ enc_stream (lastChar s) ch"
    "enc_live ?s" "lastChar ?s = last (lastChar s # ch)"
    using enc_loop_out [OF Cons.prems, of ch] by (simp_all add: DotEncoder_transform_def)
  show ?case
    using Cons.IH [OF a(2)] a by (simp add: enc_stream_append)
qed

lemma flush_out:
  assumes "enc_live s"
  shows "concat (seen (read_held (enc_buffer (DotEncoder_flush s)) (enc_consumer (DotEncoder_flush s)))) =
     enc_out s @ enc_tail (lastChar s)"
proof -
  have l: "reader (enc_consumer s) = AtPush" "held (enc_consumer s) = []"
    using assms by (simp_all add: enc_live_def live_def)
  show ?thesis
    using l
    by (simp add: DotEncoder_flush_def Let_def enc_out_def enc_tail_def enc_push_def push_def
        read_held_def slice_def)
qed

lemma encode_stream:
  "encode AtPush chunks = enc_stream 0x00 (concat chunks) @ enc_tail (last (0x00 # concat chunks))"
proof -
  let ?s = "foldl DotEncoder_transform (new_DotEncoder AtPush) chunks"
  have i: "enc_live (new_DotEncoder AtPush)"
    by (simp add: new_DotEncoder_def new_consumer_def enc_live_def live_def)
  have o: "enc_out (new_DotEncoder AtPush) = []" "lastChar (new_DotEncoder AtPush) = 0x00"
    by (simp_all add: new_DotEncoder_def new_consumer_def enc_out_def)
  have a: "enc_out ?s = enc_stream 0x00 (concat chunks)" "enc_live ?s"
    "lastChar ?s = last (0x00 # concat chunks)"
    using transform_chunks_out [OF i, of chunks] o by simp_all
  show ?thesis
    unfolding encode_def Let_def flush_out [OF a(2)] using a(1,3) by simp
qed

lemma plain_body_Cons:
  assumes "plain_body (c # b)"
  shows "c \<noteq> CR" and "c \<noteq> LF" and "plain_body b" and "c = 0x00 \<longrightarrow> b = [] \<or> hd b \<noteq> DOT"
proof -
  show "c \<noteq> CR" and "c \<noteq> LF" using assms by (auto simp: plain_body_def)
  show "plain_body b" using assms by (cases b) (simp_all add: plain_body_def)
  show "c = 0x00 \<longrightarrow> b = [] \<or> hd b \<noteq> DOT" using assms by (cases b) (simp_all add: plain_body_def)
qed

lemma enc_plain:
  "lc \<noteq> CR \<Longrightarrow> lc \<noteq> LF \<Longrightarrow> lc = 0x00 \<longrightarrow> b = [] \<or> hd b \<noteq> DOT \<Longrightarrow> plain_body b \<Longrightarrow>
   enc_stream lc (b @ CR # LF # rest) = b @ CR # LF # enc_stream LF rest"
proof (induction b arbitrary: lc)
  case Nil
  then show ?case by (simp add: enc_char_def enc_prefix_def bytes_distinct)
next
  case (Cons c b)
  note c = plain_body_Cons [OF Cons.prems(4)]
  have "enc_prefix lc c = []"
    using Cons.prems(1-3) c(2) by (simp add: enc_prefix_def)
  then have "enc_char lc c = [c]" by (simp add: enc_char_def)
  then show ?case using Cons.IH [OF c(1,2,4,3)] by simp
qed

lemma enc_line:
  assumes "lc = 0x00 \<or> lc = LF" and "plain_body b"
  shows "enc_stream lc (b @ CR # LF # rest) = stuffed b @ CR # LF # enc_stream LF rest"
proof (cases b)
  case Nil
  then show ?thesis
    using assms(1) by (auto simp: stuffed_def enc_char_def enc_prefix_def bytes_distinct)
next
  case (Cons c b')
  then have "plain_body (c # b')" using assms(2) by simp
  note c = plain_body_Cons [OF this]
  have "enc_char lc c = (if c = DOT then [DOT, c] else [c])"
    using assms(1) c(1,2) by (auto simp: enc_char_def enc_prefix_def bytes_distinct)
  then show ?thesis using enc_plain [OF c(1,2,4,3), of rest] Cons by (simp add: stuffed_def)
qed

lemma enc_lines:
  assumes "lc = 0x00 \<or> lc = LF" and "\<forall>b\<in>set bodies. plain_body b"
  shows "enc_stream lc (crlf_lines bodies) = concat (map (\<lambda>b. stuffed b @ [CR, LF]) bodies)"
  using assms
proof (induction bodies arbitrary: lc)
  case Nil
  then show ?case by (simp add: crlf_lines_def)
next
  case (Cons b bodies)
  have "enc_stream lc (b @ CR # LF # crlf_lines bodies) =
      stuffed b @ CR # LF # enc_stream LF (crlf_lines bodies)"
    using Cons.prems by (intro enc_line) simp_all
  moreover have "enc_stream LF (crlf_lines bodies) = concat (map (\<lambda>b. stuffed b @ [CR, LF]) bodies)"
    using Cons.prems by (intro Cons.IH) simp_all
  ultimately show ?case by (simp add: crlf_lines_def)
qed

lemma crlf_lines_append: "crlf_lines (xs @ ys) = crlf_lines xs @ crlf_lines ys"
  by (simp add: crlf_lines_def)

lemma last_crlf_lines:
  assumes "bodies \<noteq> []"
  shows "last (lc # crlf_lines bodies) = LF"
proof -
  have "crlf_lines bodies = crlf_lines (butlast bodies @ [last bodies])"
    using assms by simp
  also have "\<dots> = crlf_lines (butlast bodies) @ last bodies @ [CR, LF]"
    unfolding crlf_lines_append by (simp add: crlf_lines_def)
  finally show ?thesis by simp
qed

lemma encode_lines:
  assumes "bodies \<noteq> []" and "\<forall>b\<in>set bodies. plain_body b" and "concat chunks = crlf_lines bodies"
  shows "encode AtPush chunks = concat (map (\<lambda>b. stuffed b @ [CR, LF]) bodies) @ [DOT, CR, LF]"
proof -
  have "enc_tail (last (0x00 # crlf_lines bodies)) = [DOT, CR, LF]"
    using last_crlf_lines [OF assms(1)] by (simp add: enc_tail_def bytes_distinct)
  then show ?thesis
    using enc_lines [of "0x00" bodies] assms(2,3) by (simp add: encode_stream)
qed

subsection \<open>The decoder as a function of its input stream\<close>

lemma drel_write:
  assumes "drel s cur" and "length cur < length (dec_buffer s)"
  shows "take (Suc (length cur)) ((dec_buffer s)[length cur := c]) = cur @ [c]"
    and "(dec_buffer s)[length cur := c] \<noteq> []"
    and "last ((dec_buffer s)[length cur := c]) = CR \<longrightarrow>
         c = CR \<and> Suc (length cur) = length (dec_buffer s)"
proof -
  let ?b = "dec_buffer s" and ?n = "length cur"
  have t: "take ?n ?b = cur" using assms(1) by (simp add: drel_def)
  show "take (Suc ?n) (?b[?n := c]) = cur @ [c]"
    using assms(2) t by (simp add: take_Suc_conv_app_nth)
  show ne: "?b[?n := c] \<noteq> []" using assms(2) by auto
  show "last (?b[?n := c]) = CR \<longrightarrow> c = CR \<and> Suc ?n = length ?b"
  proof
    assume l: "last (?b[?n := c]) = CR"
    have bn: "?b \<noteq> []" using assms(2) by auto
    have ll: "last (?b[?n := c]) = (?b[?n := c]) ! (length ?b - 1)"
      using ne by (simp add: last_conv_nth)
    show "c = CR \<and> Suc ?n = length ?b"
    proof (cases "Suc ?n = length ?b")
      case True
      then have "length ?b - 1 = ?n" by simp
      then have "(?b[?n := c]) ! (length ?b - 1) = c" using assms(2) by (metis nth_list_update_eq)
      then show ?thesis using l ll True by simp
    next
      case False
      then have "length ?b - 1 \<noteq> ?n" using assms(2) by simp
      then have "(?b[?n := c]) ! (length ?b - 1) = ?b ! (length ?b - 1)"
        by (metis nth_list_update_neq)
      then have "last ?b = CR" using l ll bn by (simp add: last_conv_nth)
      then have "?n = length ?b" using assms(1) bn by (simp add: drel_def)
      then show ?thesis using assms(2) by simp
    qed
  qed
qed

lemma dec_step:
  assumes "drel s cur" and "length cur < length (dec_buffer s)"
  shows "dec_loop s lc (c # cs) =
     (let b = (dec_buffer s)[length cur := c] in
      if lc = CR \<and> c = LF then
        (if hd (cur @ [c]) = DOT then
           (if length cur = 2
            then Inr (s \<lparr> dec_buffer := b, dec_bufferSize := -1, dec_ended := True \<rparr>)
            else dec_loop (s \<lparr> dec_buffer := b,
                                 dec_consumer := (dec_consumer s) \<lparr> seen := seen (dec_consumer s) @ [tl (cur @ [c])] \<rparr>,
                                 dec_bufferSize := 0 \<rparr>) c cs)
         else dec_loop (s \<lparr> dec_buffer := b,
                              dec_consumer := (dec_consumer s) \<lparr> seen := seen (dec_consumer s) @ [cur @ [c]] \<rparr>,
                              dec_bufferSize := 0 \<rparr>) c cs)
      else dec_loop (s \<lparr> dec_buffer := b, dec_bufferSize := int (length cur) + 1 \<rparr>) c cs)"
proof -
  have n: "dec_bufferSize s = int (length cur)" "\<not> dec_bufferSize s > dec_maxLineLength s"
    "reader (dec_consumer s) = AtPush"
    using assms by (simp_all add: drel_def live_def)
  have t: "take (Suc (length cur)) ((dec_buffer s)[length cur := x]) = cur @ [x]" for x
    using drel_write(1) [OF assms] .
  have h: "((dec_buffer s)[length cur := x]) ! 0 = hd (cur @ [x])" for x
    using t [of x] by (metis hd_conv_nth nth_take snoc_eq_iff_butlast zero_less_Suc)
  have d1: "drop 1 xs = tl xs" for xs :: "byte list" by (simp add: drop_Suc)
  have "slice ((dec_buffer s)[length cur := x]) (Suc 0) (int (length cur) + 1) =
      drop 1 (take (Suc (length cur)) ((dec_buffer s)[length cur := x]))" for x
    by (simp add: slice_def nat_add_distrib)
  then have s1: "slice ((dec_buffer s)[length cur := x]) (Suc 0) (int (length cur) + 1) =
      tl (cur @ [x])" for x
    unfolding t d1 .
  have s0: "slice ((dec_buffer s)[length cur := x]) 0 (int (length cur) + 1) = cur @ [x]" for x
    using t [of x] by (simp add: slice_def nat_add_distrib)
  show ?thesis
    using assms(2) n by (simp add: Let_def h s1 s0 dec_push_def push_def)
qed

lemma drel_reset:
  assumes "drel s cur" and "length cur < length (dec_buffer s)" and "c \<noteq> CR"
  shows "drel (s \<lparr> dec_buffer := (dec_buffer s)[length cur := c],
                    dec_consumer := (dec_consumer s) \<lparr> seen := p \<rparr>,
                    dec_bufferSize := 0 \<rparr>) []"
  using assms drel_write(3) [OF assms(1,2), of c] by (simp add: drel_def live_def)

lemma drel_grow:
  assumes "drel s cur" and "length cur < length (dec_buffer s)"
  shows "drel (s \<lparr> dec_buffer := (dec_buffer s)[length cur := c],
                    dec_bufferSize := int (length cur) + 1 \<rparr>) (cur @ [c])"
  using assms drel_write(1,3) [OF assms, of c] by (simp add: drel_def)

lemma drel_not_ended: "drel s cur \<Longrightarrow> \<not> dec_ended s"
  unfolding drel_def by blast

lemma drel_live: "drel s cur \<Longrightarrow> live (dec_consumer s)"
  unfolding drel_def by blast

lemma drel_bounds:
  "drel s cur \<Longrightarrow>
   dec_bufferSize s = int (length cur) \<and> length cur \<le> length (dec_buffer s) \<and>
   int (length (dec_buffer s)) \<le> dec_maxLineLength s"
  unfolding drel_def by blast

lemma drel_last:
  "drel s cur \<Longrightarrow> dec_buffer s \<noteq> [] \<Longrightarrow> last (dec_buffer s) = CR \<Longrightarrow>
   length cur = length (dec_buffer s)"
  unfolding drel_def by blast

lemma dec_refines:
  "drel s cur \<Longrightarrow>
   rres (length (dec_buffer s)) (dec_loop s lc cs)
     (adec (length (dec_buffer s)) cur (seen (dec_consumer s)) lc cs)"
proof (induction cs arbitrary: s cur lc)
  case Nil
  then show ?case by (simp add: drel_not_ended drel_live)
next
  case (Cons c cs)
  note lv = drel_live [OF Cons.prems]
  show ?case
  proof (cases "length cur < length (dec_buffer s)")
    case False
    then have "dec_loop s lc (c # cs) = Inl RangeError"
      using drel_bounds [OF Cons.prems] by simp
    then show ?thesis using False by simp
  next
    case True
    let ?b = "(dec_buffer s)[length cur := c]"
    note st = dec_step [OF Cons.prems True, of lc c cs]
    show ?thesis
    proof (cases "lc = CR \<and> c = LF")
      case lf: True
      then have ncr: "c \<noteq> CR" by (simp add: bytes_distinct)
      show ?thesis
      proof (cases "hd (cur @ [c]) = DOT")
        case dot: True
        show ?thesis
        proof (cases "length cur = 2")
          case True
          then show ?thesis using st lf dot lv \<open>length cur < length (dec_buffer s)\<close>
            by (simp add: Let_def)
        next
          case False
          let ?s = "s \<lparr> dec_buffer := ?b,
                         dec_consumer := (dec_consumer s) \<lparr> seen := seen (dec_consumer s) @ [tl (cur @ [c])] \<rparr>,
                         dec_bufferSize := 0 \<rparr>"
          have "drel ?s []" using Cons.prems True ncr by (rule drel_reset)
          then have "rres (length (dec_buffer ?s)) (dec_loop ?s c cs)
              (adec (length (dec_buffer ?s)) [] (seen (dec_consumer ?s)) c cs)"
            by (rule Cons.IH)
          then show ?thesis using st lf dot False True by (simp add: Let_def)
        qed
      next
        case nodot: False
        let ?s = "s \<lparr> dec_buffer := ?b,
                       dec_consumer := (dec_consumer s) \<lparr> seen := seen (dec_consumer s) @ [cur @ [c]] \<rparr>,
                       dec_bufferSize := 0 \<rparr>"
        have "drel ?s []" using Cons.prems True ncr by (rule drel_reset)
        then have "rres (length (dec_buffer ?s)) (dec_loop ?s c cs)
            (adec (length (dec_buffer ?s)) [] (seen (dec_consumer ?s)) c cs)"
          by (rule Cons.IH)
        then show ?thesis using st lf nodot True by (simp add: Let_def)
      qed
    next
      case False
      let ?s = "s \<lparr> dec_buffer := ?b, dec_bufferSize := int (length cur) + 1 \<rparr>"
      have "drel ?s (cur @ [c])" using Cons.prems True by (rule drel_grow)
      then have "rres (length (dec_buffer ?s)) (dec_loop ?s c cs)
          (adec (length (dec_buffer ?s)) (cur @ [c]) (seen (dec_consumer ?s)) c cs)"
        by (rule Cons.IH)
      moreover have "dec_loop s lc (c # cs) = dec_loop ?s c cs"
        using st False by (auto simp: Let_def)
      moreover have "adec (length (dec_buffer s)) cur (seen (dec_consumer s)) lc (c # cs) =
          adec (length (dec_buffer s)) (cur @ [c]) (seen (dec_consumer s)) c cs"
        using False True by auto
      ultimately show ?thesis by simp
    qed
  qed
qed

lemma adec_lc:
  assumes "cs = [] \<or> cap \<le> length cur \<or> (lc \<noteq> CR \<and> lc' \<noteq> CR)"
  shows "adec cap cur out lc cs = adec cap cur out lc' cs"
  using assms by (cases cs) auto

lemma adec_cont_simps:
  "adec_cont cap (Inl e) lc b = Inl e"
  "adec_cont cap (Inr (cur, out, True)) lc b = Inr (cur, out, True)"
  "adec_cont cap (Inr (cur, out, False)) lc b = adec cap cur out lc b"
  by (simp_all add: adec_cont_def)

lemma adec_append:
  "adec cap cur out lc (a @ b) = adec_cont cap (adec cap cur out lc a) (last (lc # a)) b"
proof (induction a arbitrary: cur out lc)
  case Nil
  then show ?case by (simp add: adec_cont_simps)
next
  case (Cons c a)
  have l: "last (lc # c # a) = last (c # a)" by simp
  show ?case unfolding l by (simp add: Cons.IH adec_cont_simps)
qed

lemma transform_refines:
  assumes "drel s cur" and "t \<noteq> CR"
  shows "rres (length (dec_buffer s)) (DotDecoder_transform s chunk)
     (adec (length (dec_buffer s)) cur (seen (dec_consumer s)) t chunk)"
proof -
  let ?lc = "if dec_buffer s \<noteq> [] then dec_buffer s ! (length (dec_buffer s) - 1) else 0x00"
  have "?lc \<noteq> CR \<or> length (dec_buffer s) \<le> length cur"
  proof (cases "dec_buffer s = []")
    case True
    then show ?thesis by (simp add: bytes_distinct)
  next
    case False
    then have "?lc = last (dec_buffer s)" by (simp add: last_conv_nth)
    then show ?thesis using drel_last [OF assms(1) False] by (metis order_refl)
  qed
  then have "adec (length (dec_buffer s)) cur (seen (dec_consumer s)) ?lc chunk =
      adec (length (dec_buffer s)) cur (seen (dec_consumer s)) t chunk"
    using assms(2) by (intro adec_lc) auto
  then show ?thesis
    using dec_refines [OF assms(1), of ?lc chunk] by (simp add: DotDecoder_transform_def)
qed

lemma decode_chunks_refines:
  assumes "drel s cur" and "t \<noteq> CR" and "\<forall>ch\<in>set chunks. ch = [] \<or> last ch \<noteq> CR"
  shows "rres (length (dec_buffer s)) (decode_chunks s chunks)
     (adec (length (dec_buffer s)) cur (seen (dec_consumer s)) t (concat chunks))"
  using assms
proof (induction chunks arbitrary: s cur t)
  case Nil
  then show ?case by (simp add: drel_not_ended drel_live)
next
  case (Cons ch chunks)
  let ?cap = "length (dec_buffer s)"
  have ne: "\<not> dec_ended s" using Cons.prems(1) by (rule drel_not_ended)
  have tr: "rres ?cap (DotDecoder_transform s ch) (adec ?cap cur (seen (dec_consumer s)) t ch)"
    using Cons.prems(1,2) by (rule transform_refines)
  have t': "last (t # ch) \<noteq> CR" using Cons.prems(2,3) by auto
  show ?case
  proof (cases "DotDecoder_transform s ch")
    case (Inl e)
    then have "adec ?cap cur (seen (dec_consumer s)) t ch = Inl e"
      using tr by (cases "adec ?cap cur (seen (dec_consumer s)) t ch") auto
    then show ?thesis using Inl ne by (simp add: adec_append adec_cont_simps)
  next
    case (Inr s')
    then obtain cur' out' fin where a: "adec ?cap cur (seen (dec_consumer s)) t ch = Inr (cur', out', fin)"
      using tr by (cases "adec ?cap cur (seen (dec_consumer s)) t ch") auto
    have r: "seen (dec_consumer s') = out'" "live (dec_consumer s')" "dec_ended s' = fin"
      "length (dec_buffer s') = ?cap"
      "\<not> fin \<longrightarrow> drel s' cur'"
      using tr Inr a by simp_all
    show ?thesis
    proof (cases fin)
      case True
      have "decode_chunks s' chunks = Inr s'" using r(3) True by (cases chunks) simp_all
      then show ?thesis using Inr a r True ne by (simp add: adec_append adec_cont_simps)
    next
      case False
      then have "rres (length (dec_buffer s')) (decode_chunks s' chunks)
          (adec (length (dec_buffer s')) cur' (seen (dec_consumer s')) (last (t # ch)) (concat chunks))"
        using Cons.IH [of s' cur' "last (t # ch)"] r(5) t' Cons.prems(3) by simp
      then show ?thesis using Inr a r False ne by (simp add: adec_append adec_cont_simps)
    qed
  qed
qed

lemma decode_refines:
  assumes "\<forall>ch\<in>set chunks. ch = [] \<or> last ch \<noteq> CR"
  shows "decode AtPush chunks =
     (case adec 1000 [] [] 0x00 (concat chunks) of
        Inl e \<Rightarrow> Inl e
      | Inr (cur, out, fin) \<Rightarrow> Inr (concat out, fin))"
proof -
  let ?new = "new_DotDecoder AtPush"
  have d: "drel ?new []"
    by (simp add: drel_def new_DotDecoder_def new_consumer_def live_def bytes_distinct)
  have "rres (length (dec_buffer ?new)) (decode_chunks ?new chunks)
      (adec (length (dec_buffer ?new)) [] (seen (dec_consumer ?new)) 0x00 (concat chunks))"
    using d _ assms by (rule decode_chunks_refines) (simp add: bytes_distinct)
  then have r: "rres 1000 (decode_chunks ?new chunks) (adec 1000 [] [] 0x00 (concat chunks))"
    by (simp add: new_DotDecoder_def new_consumer_def)
  show ?thesis
  proof (cases "decode_chunks ?new chunks")
    case (Inl e)
    then show ?thesis using r
      by (cases "adec 1000 [] [] 0x00 (concat chunks)") (auto simp: decode_def)
  next
    case (Inr s')
    then show ?thesis using r
      by (cases "adec 1000 [] [] 0x00 (concat chunks)")
         (auto simp: decode_def read_held_def live_def)
  qed
qed

lemma adec_plain:
  "LF \<notin> set l \<Longrightarrow> length cur + length l \<le> cap \<Longrightarrow>
   adec cap cur out lc (l @ rest) = adec cap (cur @ l) out (last (lc # l)) rest"
proof (induction l arbitrary: cur lc)
  case Nil
  then show ?case by simp
next
  case (Cons c l)
  then have "adec cap (cur @ [c]) out c (l @ rest) = adec cap ((cur @ [c]) @ l) out (last (c # l)) rest"
    by (intro Cons.IH) simp_all
  then show ?case using Cons.prems by auto
qed

lemma adec_line:
  assumes "LF \<notin> set l" and "length l + 2 \<le> cap"
  shows "adec cap [] out lc (l @ CR # LF # rest) =
     (if hd (l @ [CR, LF]) = DOT then
        (if length l = 1 then Inr (l @ [CR, LF], out, True)
         else adec cap [] (out @ [tl (l @ [CR, LF])]) LF rest)
      else adec cap [] (out @ [l @ [CR, LF]]) LF rest)"
proof -
  have "adec cap [] out lc ((l @ [CR]) @ LF # rest) =
      adec cap ([] @ l @ [CR]) out (last (lc # l @ [CR])) (LF # rest)"
    using assms by (intro adec_plain) (simp_all add: bytes_distinct)
  then have "adec cap [] out lc (l @ CR # LF # rest) = adec cap (l @ [CR]) out CR (LF # rest)"
    by simp
  then show ?thesis using assms(2) by simp
qed

lemma adec_stuffed_line:
  assumes "plain_body b" and "length (stuffed b) + 2 \<le> cap"
  shows "adec cap [] out lc (stuffed b @ CR # LF # rest) = adec cap [] (out @ [b @ [CR, LF]]) LF rest"
proof -
  have nl: "LF \<notin> set (stuffed b)"
    using assms(1) by (simp add: stuffed_def plain_body_def bytes_distinct)
  note a = adec_line [OF nl assms(2), of out lc rest]
  show ?thesis
  proof (cases "b \<noteq> [] \<and> hd b = DOT")
    case True
    then have "stuffed b = DOT # b" by (simp add: stuffed_def)
    then show ?thesis using a True by simp
  next
    case False
    then have s: "stuffed b = b" by (simp add: stuffed_def)
    have "hd (b @ [CR, LF]) \<noteq> DOT" using False by (cases b) (simp_all add: bytes_distinct)
    then show ?thesis using a s by simp
  qed
qed

lemma adec_lines:
  assumes "\<forall>b\<in>set bodies. plain_body b \<and> length (stuffed b) + 2 \<le> cap"
  shows "adec cap [] out lc (concat (map (\<lambda>b. stuffed b @ [CR, LF]) bodies) @ rest) =
     adec cap [] (out @ map (\<lambda>b. b @ [CR, LF]) bodies) (if bodies = [] then lc else LF) rest"
  using assms
proof (induction bodies arbitrary: out lc)
  case Nil
  then show ?case by simp
next
  case (Cons b bodies)
  have "adec cap [] out lc (stuffed b @ CR # LF # concat (map (\<lambda>b. stuffed b @ [CR, LF]) bodies) @ rest) =
      adec cap [] (out @ [b @ [CR, LF]]) LF (concat (map (\<lambda>b. stuffed b @ [CR, LF]) bodies) @ rest)"
    using Cons.prems by (intro adec_stuffed_line) simp_all
  moreover have "adec cap [] (out @ [b @ [CR, LF]]) LF
        (concat (map (\<lambda>b. stuffed b @ [CR, LF]) bodies) @ rest) =
      adec cap [] ((out @ [b @ [CR, LF]]) @ map (\<lambda>b. b @ [CR, LF]) bodies)
        (if bodies = [] then LF else LF) rest"
    using Cons.prems by (intro Cons.IH) simp_all
  ultimately show ?case by simp
qed

lemma adec_end: "3 \<le> cap \<Longrightarrow> adec cap [] out lc [DOT, CR, LF] = Inr ([DOT, CR, LF], out, True)"
  by (simp add: bytes_distinct)

subsection \<open>A consumer that reads later\<close>

text \<open>
  Whatever the consumer, the encoder's loop is a sequence of calls of \<open>write2Buffer\<close>, one
  for every byte of \<open>enc_stream\<close>. As long as the buffer does not fill up, these calls only
  write into the buffer.
\<close>

lemma lastChar_writes: "lastChar (foldl write2Buffer s bs) = last (lastChar s # bs)"
  by (induction bs arbitrary: s) (simp_all add: lastChar_write2Buffer)

lemma enc_loop_writes: "enc_loop s cs = foldl write2Buffer s (enc_stream (lastChar s) cs)"
proof (induction cs arbitrary: s)
  case Nil
  then show ?case by (simp add: enc_loop.simps)
next
  case (Cons c cs)
  let ?s = "foldl write2Buffer s (enc_char (lastChar s) c)"
  have "lastChar ?s = c"
    using last_enc_char [of "lastChar s" c] by (simp add: lastChar_writes)
  then show ?case using Cons.IH [of ?s] by (simp add: enc_loop_step)
qed

lemma write2Buffer_room:
  assumes "Suc (enc_bufferSize s) < length (enc_buffer s)"
  shows "write2Buffer s c =
     s \<lparr> enc_buffer := (enc_buffer s)[enc_bufferSize s := c],
         enc_bufferSize := Suc (enc_bufferSize s), lastChar := c \<rparr>"
  using assms by (simp add: write2Buffer_def Let_def)

lemma writes_room:
  "enc_bufferSize s + length bs < length (enc_buffer s) \<Longrightarrow>
   foldl write2Buffer s bs =
     s \<lparr> enc_buffer := take (enc_bufferSize s) (enc_buffer s) @ bs @
                         drop (enc_bufferSize s + length bs) (enc_buffer s),
         enc_bufferSize := enc_bufferSize s + length bs,
         lastChar := last (lastChar s # bs) \<rparr>"
proof (induction bs arbitrary: s)
  case Nil
  then show ?case by simp
next
  case (Cons c bs)
  let ?k = "enc_bufferSize s" and ?b = "enc_buffer s"
  let ?s = "s \<lparr> enc_buffer := ?b[?k := c], enc_bufferSize := Suc ?k, lastChar := c \<rparr>"
  have w: "write2Buffer s c = ?s"
    using Cons.prems by (intro write2Buffer_room) simp
  have t: "take (Suc ?k) (?b[?k := c]) = take ?k ?b @ [c]"
    using Cons.prems by (simp add: take_Suc_conv_app_nth)
  have d: "drop (Suc ?k + length bs) (?b[?k := c]) = drop (Suc ?k + length bs) ?b"
    by simp
  have "foldl write2Buffer ?s bs =
     ?s \<lparr> enc_buffer := take (enc_bufferSize ?s) (enc_buffer ?s) @ bs @
                         drop (enc_bufferSize ?s + length bs) (enc_buffer ?s),
         enc_bufferSize := enc_bufferSize ?s + length bs,
         lastChar := last (lastChar ?s # bs) \<rparr>"
    using Cons.prems by (intro Cons.IH) simp
  then show ?case using w t d by simp
qed

lemma enc_stream_replicate:
  "lc \<noteq> CR \<Longrightarrow> enc_stream lc (replicate n 0x61 @ rest) =
     replicate n 0x61 @ enc_stream (if n = 0 then lc else 0x61) rest"
proof (induction n arbitrary: lc)
  case 0
  then show ?case by simp
next
  case (Suc n)
  have a: "(0x61 :: byte) \<noteq> CR" "(0x61 :: byte) \<noteq> LF" "(0x61 :: byte) \<noteq> DOT"
    by (simp_all add: CR_def LF_def DOT_def)
  have "enc_char lc 0x61 = [0x61]"
    using Suc.prems a by (simp add: enc_char_def enc_prefix_def)
  then show ?case using Suc.IH [OF a(1)] by simp
qed

text \<open>
  A line of 1022 bytes \<^verbatim>\<open>a\<close> and a line \<^verbatim>\<open>b\<close>, written in one chunk. The first line fills the
  buffer with its CRLF, the encoder pushes the buffer and writes the second line over its
  first three bytes. A consumer that reads when the run is over finds the second line at
  the start of the first chunk.
\<close>

lemma encode_later_overwritten:
  "encode Later [replicate 1022 0x61 @ [CR, LF, 0x62, CR, LF]] =
     [0x62, CR, LF] @ replicate 1019 0x61 @ [CR, LF, 0x62, CR, LF, DOT, CR, LF]"
proof -
  let ?a = "replicate 1022 (0x61 :: byte)"
  let ?s0 = "new_DotEncoder Later"
  have st: "enc_stream 0x00 (?a @ [CR, LF, 0x62, CR, LF]) = (?a @ [CR]) @ LF # [0x62, CR, LF]"
    by (simp add: enc_stream_replicate bytes_distinct enc_char_def enc_prefix_def CR_def LF_def DOT_def)
  let ?s1 = "foldl write2Buffer ?s0 (?a @ [CR])"
  have s1: "?s1 = ?s0 \<lparr> enc_buffer := ?a @ [CR, 0x00], enc_bufferSize := 1023, lastChar := CR \<rparr>"
    by (subst writes_room) (simp_all add: new_DotEncoder_def)
  let ?s2 = "write2Buffer ?s1 LF"
  have s2: "?s2 = ?s0 \<lparr> enc_buffer := ?a @ [CR, LF], enc_bufferSize := 0, lastChar := LF,
                        enc_consumer := \<lparr> reader = Later, held = [View 0 1024], seen = [] \<rparr> \<rparr>"
    unfolding s1
    by (simp add: write2Buffer_def Let_def enc_push_def push_def new_DotEncoder_def
        new_consumer_def list_update_append)
  let ?s3 = "foldl write2Buffer ?s2 [0x62, CR, LF]"
  have s3: "?s3 = ?s0 \<lparr> enc_buffer := [0x62, CR, LF] @ replicate 1019 0x61 @ [CR, LF],
                        enc_bufferSize := 3, lastChar := LF,
                        enc_consumer := \<lparr> reader = Later, held = [View 0 1024], seen = [] \<rparr> \<rparr>"
    unfolding s2 by (subst writes_room) (simp_all add: new_DotEncoder_def)
  have sp: "foldl write2Buffer s (xs @ y # ys) =
      foldl write2Buffer (write2Buffer (foldl write2Buffer s xs) y) ys" for s xs y ys
    by simp
  have l0: "lastChar ?s0 = 0x00" by (simp add: new_DotEncoder_def)
  have "DotEncoder_transform ?s0 (?a @ [CR, LF, 0x62, CR, LF]) =
      foldl write2Buffer ?s0 ((?a @ [CR]) @ LF # [0x62, CR, LF])"
    unfolding DotEncoder_transform_def enc_loop_writes l0 st by (rule refl)
  also have "\<dots> = ?s3" by (rule sp)
  finally have "foldl DotEncoder_transform ?s0 [?a @ [CR, LF, 0x62, CR, LF]] = ?s3" by simp
  then show ?thesis
    unfolding encode_def s3
    by (simp add: DotEncoder_flush_def Let_def enc_push_def push_def read_held_def
        new_DotEncoder_def new_consumer_def slice_def bytes_distinct)
qed

lemma encode_at_push_kept:
  "encode AtPush [replicate 1022 0x61 @ [CR, LF, 0x62, CR, LF]] =
     replicate 1022 0x61 @ [CR, LF, 0x62, CR, LF, DOT, CR, LF]"
  by (simp add: encode_stream enc_stream_replicate enc_tail_def enc_char_def enc_prefix_def
      bytes_distinct CR_def LF_def DOT_def)

text \<open>
  C1, as the code has it. Let the input be one or more lines that each end in CRLF, with
  no other CR or LF and no NUL byte directly before a dot, each line at most 1000 bytes
  long on the wire (with its CRLF and the dot put before a leading dot). The input is
  written to a new encoder in any chunks, and what the encoder pushes is read at every
  push. The bytes read are written to a new decoder in any chunks of which none ends with
  CR, and what the decoder pushes is read at every push. Then the bytes read from the
  decoder are exactly the input, and the decoder has ended at the final dot line.
\<close>

theorem dot_codec_round_trip:
  assumes "bodies \<noteq> []"
    and "\<forall>b\<in>set bodies. plain_body b \<and> length (stuffed b) + 2 \<le> 1000"
    and "concat chunks = crlf_lines bodies"
    and "concat chunks' = encode AtPush chunks"
    and "\<forall>ch\<in>set chunks'. ch = [] \<or> last ch \<noteq> CR"
  shows "decode AtPush chunks' = Inr (crlf_lines bodies, True)"
proof -
  have e: "encode AtPush chunks = concat (map (\<lambda>b. stuffed b @ [CR, LF]) bodies) @ [DOT, CR, LF]"
    using assms(1,2,3) by (intro encode_lines) simp_all
  let ?w = "concat (map (\<lambda>b. stuffed b @ [CR, LF]) bodies)"
  let ?o = "map (\<lambda>b. b @ [CR, LF]) bodies"
  have c: "concat chunks' = ?w @ [DOT, CR, LF]" using assms(4) e by (rule trans)
  have i: "(if bodies = [] then 0x00 else LF) = LF" using assms(1) by simp
  have "adec 1000 [] [] 0x00 (?w @ [DOT, CR, LF]) =
      adec 1000 [] ([] @ ?o) (if bodies = [] then 0x00 else LF) [DOT, CR, LF]"
    using adec_lines [OF assms(2), of "[]" "0x00" "[DOT, CR, LF]"] .
  also have "\<dots> = adec 1000 [] ?o LF [DOT, CR, LF]" unfolding i by simp
  also have "\<dots> = Inr ([DOT, CR, LF], ?o, True)" by (rule adec_end) simp
  finally have "adec 1000 [] [] 0x00 (concat chunks') = Inr ([DOT, CR, LF], ?o, True)"
    unfolding c .
  then have "decode AtPush chunks' = Inr (concat ?o, True)"
    using decode_refines [OF assms(5)] by simp
  then show ?thesis by (simp add: crlf_lines_def)
qed

theorem dot_codec_round_trip_witness:
  "encode AtPush [[DOT], [0x00, 0x61, CR], [LF, 0x62, CR, LF]] =
     concat [[DOT, DOT, 0x00, 0x61], [CR, LF, 0x62, CR, LF, DOT], [CR, LF]] \<and>
   decode AtPush [[DOT, DOT, 0x00, 0x61], [CR, LF, 0x62, CR, LF, DOT], [CR, LF]] =
     Inr ([DOT, 0x00, 0x61, CR, LF, 0x62, CR, LF], True)"
proof -
  let ?bodies = "[[DOT, 0x00, 0x61], [0x62 :: byte]]"
  let ?chunks = "[[DOT], [0x00, 0x61, CR], [LF, 0x62, CR, LF]]"
  let ?chunks' = "[[DOT, DOT, 0x00, 0x61], [CR, LF, 0x62, CR, LF, DOT], [CR, LF]]"
  have h1: "?bodies \<noteq> []" by simp
  have h2: "\<forall>b\<in>set ?bodies. plain_body b \<and> length (stuffed b) + 2 \<le> 1000"
    by (simp add: plain_body_def stuffed_def CR_def LF_def DOT_def)
  have h3: "concat ?chunks = crlf_lines ?bodies" by (simp add: crlf_lines_def)
  have h4: "concat ?chunks' = encode AtPush ?chunks" by code_simp
  have h5: "\<forall>ch\<in>set ?chunks'. ch = [] \<or> last ch \<noteq> CR"
    by (simp add: CR_def LF_def DOT_def)
  have "decode AtPush ?chunks' = Inr (crlf_lines ?bodies, True)"
    using h1 h2 h3 h4 h5 by (rule dot_codec_round_trip)
  then show ?thesis using h4 by (simp add: crlf_lines_def)
qed

text \<open>
  C1 as stated fails. The encoder ends an unfinished last line, so the input \<^verbatim>\<open>a\<close> comes
  back as \<^verbatim>\<open>a\<close> CR LF. The encoder takes NUL for the start of the stream, so a dot after a
  NUL byte is doubled and stays doubled. A decoder that receives CR at the end of one
  chunk and LF at the start of the next does not see the line end: it reads its last
  character from the last byte of the buffer, not from the last byte written, pushes the
  final dot line as data and does not end. A consumer that reads the decoder's chunks
  when the run is over finds in every one of them what the decoder has written into its
  line buffer since: for the two lines \<^verbatim>\<open>a\<close> and \<^verbatim>\<open>b\<close> it reads the final dot line twice. And
  such a consumer of the encoder finds a buffer that was pushed full overwritten by the
  bytes that followed.
\<close>

theorem dot_codec_round_trip_counterexample:
  "decode AtPush [encode AtPush [[0x61]]] = Inr ([0x61, CR, LF], True) \<and>
   decode AtPush [encode AtPush [[0x00, DOT, CR, LF]]] = Inr ([0x00, DOT, DOT, CR, LF], True) \<and>
   (encode AtPush [[0x61, CR, LF]] = [0x61, CR, LF, DOT, CR, LF] \<and>
    decode AtPush [[0x61, CR], [LF, DOT, CR, LF]] = Inr ([0x61, CR, LF, DOT, CR, LF], False)) \<and>
   (encode Later [[0x61, CR, LF, 0x62, CR, LF]] = [0x61, CR, LF, 0x62, CR, LF, DOT, CR, LF] \<and>
    decode Later [[0x61, CR, LF, 0x62, CR, LF, DOT, CR, LF]] =
      Inr ([DOT, CR, LF, DOT, CR, LF], True)) \<and>
   encode Later [replicate 1022 0x61 @ [CR, LF, 0x62, CR, LF]] =
     [0x62, CR, LF] @ replicate 1019 0x61 @ [CR, LF, 0x62, CR, LF, DOT, CR, LF]"
proof (intro conjI)
  show "decode AtPush [encode AtPush [[0x61]]] = Inr ([0x61, CR, LF], True)"
    by code_simp
  show "decode AtPush [encode AtPush [[0x00, DOT, CR, LF]]] = Inr ([0x00, DOT, DOT, CR, LF], True)"
    by code_simp
  show "encode AtPush [[0x61, CR, LF]] = [0x61, CR, LF, DOT, CR, LF]"
    by code_simp
  show "decode AtPush [[0x61, CR], [LF, DOT, CR, LF]] = Inr ([0x61, CR, LF, DOT, CR, LF], False)"
    by code_simp
  show "encode Later [[0x61, CR, LF, 0x62, CR, LF]] = [0x61, CR, LF, 0x62, CR, LF, DOT, CR, LF]"
    by code_simp
  show "decode Later [[0x61, CR, LF, 0x62, CR, LF, DOT, CR, LF]] =
      Inr ([DOT, CR, LF, DOT, CR, LF], True)"
    by code_simp
  show "encode Later [replicate 1022 0x61 @ [CR, LF, 0x62, CR, LF]] =
     [0x62, CR, LF] @ replicate 1019 0x61 @ [CR, LF, 0x62, CR, LF, DOT, CR, LF]"
    by (rule encode_later_overwritten)
qed

end
